theory Spec2Isabelle
  imports Main
begin

section \<open>Python strings\<close>

text \<open>
  Source text is a Python \<^verbatim>\<open>str\<close>; it is modelled as a \<^typ>\<open>string\<close>, one
  \<^typ>\<open>char\<close> per code point, for code points below 256. The character classes are
  the ones \<^verbatim>\<open>str.isspace\<close>, \<^verbatim>\<open>str.isalnum\<close> and \<^verbatim>\<open>str.lower\<close> compute on that range.
\<close>

definition isspace :: "char \<Rightarrow> bool" where
  "isspace c = (of_char c \<in> {9, 10, 11, 12, 13, 28, 29, 30, 31, 32, 133, 160 :: nat})"

definition isword :: "char \<Rightarrow> bool" where
  "isword c =
     (let n = (of_char c :: nat) in
        (48 \<le> n \<and> n \<le> 57) \<or> (65 \<le> n \<and> n \<le> 90) \<or> n = 95 \<or> (97 \<le> n \<and> n \<le> 122)
        \<or> n \<in> {170, 178, 179, 181, 185, 186, 188, 189, 190}
        \<or> (192 \<le> n \<and> n \<le> 214) \<or> (216 \<le> n \<and> n \<le> 246) \<or> 248 \<le> n)"

definition isasciiword :: "char \<Rightarrow> bool" where
  "isasciiword c =
     (let n = (of_char c :: nat) in
        (48 \<le> n \<and> n \<le> 57) \<or> (65 \<le> n \<and> n \<le> 90) \<or> n = 95 \<or> (97 \<le> n \<and> n \<le> 122))"

definition islinebreak :: "char \<Rightarrow> bool" where
  "islinebreak c = (of_char c \<in> {10, 11, 12, 13, 28, 29, 30, 133 :: nat})"

definition lower_char :: "char \<Rightarrow> char" where
  "lower_char c =
     (let n = (of_char c :: nat) in
        if (65 \<le> n \<and> n \<le> 90) \<or> (192 \<le> n \<and> n \<le> 222 \<and> n \<noteq> 215)
        then char_of (n + 32) else c)"

text \<open>
  The same classes on the bits of a character (least significant first), as code
  equations: they are what evaluation uses.
\<close>

lemma isspace_code [code]:
  "isspace (Char b0 b1 b2 b3 b4 b5 b6 b7) =
     (if b7 then (\<not> b6 \<and> (if b5 then (\<not> b4 \<and> (\<not> b3 \<and> (\<not> b2
       \<and> (\<not> b1 \<and> \<not> b0)))) else (\<not> b4 \<and> (\<not> b3 \<and> (b2
       \<and> (\<not> b1 \<and> b0)))))) else (\<not> b6 \<and> (if b5 then (\<not> b4 \<and>
       (\<not> b3 \<and> (\<not> b2 \<and> (\<not> b1 \<and> \<not> b0)))) else (if b4 then (b3
       \<and> b2) else (b3 \<and> (if b2 then \<not> b1 else (b1 \<or> b0)))))))"
  by (cases b0; cases b1; cases b2; cases b3; cases b4; cases b5; cases b6; cases b7;
      simp add: isspace_def)

lemma isword_code [code]:
  "isword (Char b0 b1 b2 b3 b4 b5 b6 b7) =
     (if b7 then (if b6 then (\<not> b4 \<or> (b3 \<or> (\<not> b2 \<or> (\<not> b1 \<or>
       \<not> b0)))) else (b5 \<and> (if b4 then (if b3 then (if b2 then (\<not> b1 \<or>
       \<not> b0) else (if b1 then \<not> b0 else b0)) else (if b2 then (\<not> b1 \<and> b0)
       else b1)) else (b3 \<and> (\<not> b2 \<and> (b1 \<and> \<not> b0)))))) else (if b6 then
       (if b5 then (if b4 then (\<not> b3 \<or> (\<not> b2 \<and> (\<not> b1 \<or> \<not> b0)))
       else (b3 \<or> (b2 \<or> (b1 \<or> b0)))) else (if b4 then (\<not> b3 \<or> (if b2 then
       (b1 \<and> b0) else (\<not> b1 \<or> \<not> b0))) else (b3 \<or> (b2 \<or> (b1 \<or>
       b0))))) else (b5 \<and> (b4 \<and> (\<not> b3 \<or> (\<not> b2 \<and> \<not> b1))))))"
  by (cases b0; cases b1; cases b2; cases b3; cases b4; cases b5; cases b6; cases b7;
      simp add: isword_def)

lemma isasciiword_code [code]:
  "isasciiword (Char b0 b1 b2 b3 b4 b5 b6 b7) =
     (\<not> b7 \<and> (if b6 then (if b5 then (if b4 then (\<not> b3 \<or> (\<not> b2 \<and>
       (\<not> b1 \<or> \<not> b0))) else (b3 \<or> (b2 \<or> (b1 \<or> b0)))) else (if b4 then
       (\<not> b3 \<or> (if b2 then (b1 \<and> b0) else (\<not> b1 \<or> \<not> b0))) else (b3
       \<or> (b2 \<or> (b1 \<or> b0))))) else (b5 \<and> (b4 \<and> (\<not> b3 \<or> (\<not> b2
       \<and> \<not> b1))))))"
  by (cases b0; cases b1; cases b2; cases b3; cases b4; cases b5; cases b6; cases b7;
      simp add: isasciiword_def)

lemma islinebreak_code [code]:
  "islinebreak (Char b0 b1 b2 b3 b4 b5 b6 b7) =
     (if b7 then (\<not> b6 \<and> (\<not> b5 \<and> (\<not> b4 \<and> (\<not> b3 \<and> (b2
       \<and> (\<not> b1 \<and> b0)))))) else (\<not> b6 \<and> (\<not> b5 \<and> (if b4 then
       (b3 \<and> (b2 \<and> (\<not> b1 \<or> \<not> b0))) else (b3 \<and> (if b2 then \<not>
       b1 else b1))))))"
  by (cases b0; cases b1; cases b2; cases b3; cases b4; cases b5; cases b6; cases b7;
      simp add: islinebreak_def)

lemma lower_char_code [code]:
  "lower_char (Char b0 b1 b2 b3 b4 b5 b6 b7) =
     (if (if b7 then (b6 \<and> (\<not> b5 \<and> (\<not> b4 \<or> (\<not> b2 \<or> (\<not>
       b1 \<or> \<not> b0))))) else (b6 \<and> (\<not> b5 \<and> (if b4 then (\<not> b3 \<or>
       (\<not> b2 \<and> (\<not> b1 \<or> \<not> b0))) else (b3 \<or> (b2 \<or> (b1 \<or>
       b0)))))))
      then Char b0 b1 b2 b3 b4 True b6 b7 else Char b0 b1 b2 b3 b4 b5 b6 b7)"
  by (cases b0; cases b1; cases b2; cases b3; cases b4; cases b5; cases b6; cases b7;
      simp add: lower_char_def char_of_def bit_iff_odd)

definition lower :: "string \<Rightarrow> string" where
  "lower s = map lower_char s"

definition lstrip :: "string \<Rightarrow> string" where
  "lstrip s = dropWhile isspace s"

definition rstrip :: "string \<Rightarrow> string" where
  "rstrip s = rev (dropWhile isspace (rev s))"

definition strip :: "string \<Rightarrow> string" where
  "strip s = rstrip (lstrip s)"

definition startswith :: "string \<Rightarrow> string \<Rightarrow> bool" where
  "startswith s p = (take (length p) s = p)"

definition endswith :: "string \<Rightarrow> string \<Rightarrow> bool" where
  "endswith s p = (length p \<le> length s \<and> drop (length s - length p) s = p)"

text \<open>\<^verbatim>\<open>sub in s\<close>.\<close>

fun contains :: "string \<Rightarrow> string \<Rightarrow> bool" where
  "contains [] sub = (sub = [])"
| "contains (c # cs) sub = (startswith (c # cs) sub \<or> contains cs sub)"

text \<open>\<^verbatim>\<open>s[a:b]\<close> for \<^verbatim>\<open>0 <= a\<close> and \<^verbatim>\<open>0 <= b\<close>.\<close>

definition slice :: "string \<Rightarrow> nat \<Rightarrow> nat \<Rightarrow> string" where
  "slice s a b = take (b - a) (drop a s)"

text \<open>\<^verbatim>\<open>s.count(c)\<close> for a one-character \<^verbatim>\<open>c\<close>.\<close>

definition count_char :: "string \<Rightarrow> char \<Rightarrow> nat" where
  "count_char s c = length (filter (\<lambda>x. x = c) s)"

text \<open>
  \<^verbatim>\<open>s.rfind(c, 0, stop)\<close> for a one-character \<^verbatim>\<open>c\<close>: the last index below \<^verbatim>\<open>stop\<close>
  holding \<^verbatim>\<open>c\<close>; Python's \<^verbatim>\<open>-1\<close> is \<^const>\<open>None\<close>.
\<close>

fun rfind_char :: "string \<Rightarrow> char \<Rightarrow> nat \<Rightarrow> nat option" where
  "rfind_char s c 0 = None"
| "rfind_char s c (Suc n) =
     (if n < length s \<and> s ! n = c then Some n else rfind_char s c n)"

text \<open>\<^verbatim>\<open>sep.join(xs)\<close>.\<close>

fun join :: "string \<Rightarrow> string list \<Rightarrow> string" where
  "join sep [] = []"
| "join sep [x] = x"
| "join sep (x # y # ys) = x @ sep @ join sep (y # ys)"

text \<open>
  \<^verbatim>\<open>s.splitlines()\<close>: lines end at a line boundary (\<^verbatim>\<open>\r\n\<close> counts once), the
  boundaries are dropped, and a text that ends in a boundary has no empty last line.
\<close>

fun splitlines_acc :: "string \<Rightarrow> string \<Rightarrow> string list" where
  "splitlines_acc cur [] = (if cur = [] then [] else [cur])"
| "splitlines_acc cur [c] = (if islinebreak c then [cur] else [cur @ [c]])"
| "splitlines_acc cur (c # d # cs) =
     (if c = CHR 0x0D \<and> d = CHR 0x0A then cur # splitlines_acc [] cs
      else if islinebreak c then cur # splitlines_acc [] (d # cs)
      else splitlines_acc (cur @ [c]) (d # cs))"

definition splitlines :: "string \<Rightarrow> string list" where
  "splitlines s = splitlines_acc [] s"

text \<open>\<^verbatim>\<open>s.split()\<close>: the maximal runs of non-whitespace characters.\<close>

fun split_ws_acc :: "string \<Rightarrow> string \<Rightarrow> string list" where
  "split_ws_acc cur [] = (if cur = [] then [] else [cur])"
| "split_ws_acc cur (c # cs) =
     (if isspace c then (if cur = [] then split_ws_acc [] cs else cur # split_ws_acc [] cs)
      else split_ws_acc (cur @ [c]) cs)"

definition split_ws :: "string \<Rightarrow> string list" where
  "split_ws s = split_ws_acc [] s"

text \<open>\<^verbatim>\<open>s.split(c)\<close> for a one-character separator: never empty.\<close>

fun split_on_acc :: "char \<Rightarrow> string \<Rightarrow> string \<Rightarrow> string list" where
  "split_on_acc sep cur [] = [cur]"
| "split_on_acc sep cur (c # cs) =
     (if c = sep then cur # split_on_acc sep [] cs else split_on_acc sep (cur @ [c]) cs)"

definition split_on :: "char \<Rightarrow> string \<Rightarrow> string list" where
  "split_on sep s = split_on_acc sep [] s"

section \<open>Regular expressions\<close>

text \<open>
  The patterns of the source are values of \<open>re\<close>, and \<open>rmatch\<close> is the backtracking
  matcher of Python's \<^verbatim>\<open>re\<close> on them: alternatives are tried left to right, a greedy
  repetition tries one more iteration before it tries to stop, a lazy one the other way
  round, and the first way that lets the rest of the pattern match is the match.
  A cursor is the character before the position, the position, and the text from there.
\<close>

datatype re =
    Chr "char \<Rightarrow> bool"
  | Eps
  | Seq re re
  | Alt re re
  | Star bool re
  | Grp nat re
  | Bos
  | Bol
  | Eos
  | Wordb

type_synonym cursor = "char option \<times> nat \<times> string"
type_synonym caps = "(nat \<times> nat \<times> nat) list"
type_synonym rres = "(cursor \<times> caps) option"
type_synonym cont = "cursor \<Rightarrow> caps \<Rightarrow> rres"

definition cpos :: "cursor \<Rightarrow> nat" where
  "cpos cu = fst (snd cu)"

definition crest :: "cursor \<Rightarrow> string" where
  "crest cu = snd (snd cu)"

text \<open>
  A repetition runs at most once per remaining character: an iteration that consumes
  nothing is not repeated.
\<close>

fun rstar :: "bool \<Rightarrow> nat \<Rightarrow> (cursor \<Rightarrow> caps \<Rightarrow> cont \<Rightarrow> rres) \<Rightarrow> cursor \<Rightarrow> caps \<Rightarrow> cont \<Rightarrow> rres" where
  "rstar g 0 body cu ca k = k cu ca"
| "rstar g (Suc n) body cu ca k =
     (if g
      then (case body cu ca (\<lambda>cu' ca'. if cpos cu < cpos cu' then rstar g n body cu' ca' k else None) of
              Some r \<Rightarrow> Some r
            | None \<Rightarrow> k cu ca)
      else (case k cu ca of
              Some r \<Rightarrow> Some r
            | None \<Rightarrow> body cu ca (\<lambda>cu' ca'. if cpos cu < cpos cu' then rstar g n body cu' ca' k else None)))"

definition at_wordb :: "cursor \<Rightarrow> bool" where
  "at_wordb cu =
     ((case fst cu of None \<Rightarrow> False | Some c \<Rightarrow> isword c)
      \<noteq> (case crest cu of [] \<Rightarrow> False | c # _ \<Rightarrow> isword c))"

fun rmatch :: "re \<Rightarrow> cursor \<Rightarrow> caps \<Rightarrow> cont \<Rightarrow> rres" where
  "rmatch (Chr p) cu ca k =
     (case crest cu of
        [] \<Rightarrow> None
      | c # cs \<Rightarrow> if p c then k (Some c, Suc (cpos cu), cs) ca else None)"
| "rmatch Eps cu ca k = k cu ca"
| "rmatch (Seq a b) cu ca k = rmatch a cu ca (\<lambda>cu' ca'. rmatch b cu' ca' k)"
| "rmatch (Alt a b) cu ca k =
     (case rmatch a cu ca k of Some r \<Rightarrow> Some r | None \<Rightarrow> rmatch b cu ca k)"
| "rmatch (Star g a) cu ca k =
     rstar g (Suc (length (crest cu))) (\<lambda>cu' ca' k'. rmatch a cu' ca' k') cu ca k"
| "rmatch (Grp n a) cu ca k =
     rmatch a cu ca (\<lambda>cu' ca'. k cu' ((n, cpos cu, cpos cu') # ca'))"
| "rmatch Bos cu ca k = (if cpos cu = 0 then k cu ca else None)"
| "rmatch Bol cu ca k =
     (if cpos cu = 0 \<or> fst cu = Some CHR 0x0A then k cu ca else None)"
| "rmatch Eos cu ca k =
     (if crest cu = [] \<or> crest cu = [CHR 0x0A] then k cu ca else None)"
| "rmatch Wordb cu ca k = (if at_wordb cu then k cu ca else None)"

text \<open>
  A match is its start, its end and its groups. \<^verbatim>\<open>search\<close> tries every start from
  the cursor on, left to right; \<^verbatim>\<open>match\<close> only the start of the text.
\<close>

type_synonym rmatch_result = "nat \<times> cursor \<times> caps"

fun search_from :: "re \<Rightarrow> char option \<Rightarrow> nat \<Rightarrow> string \<Rightarrow> rmatch_result option" where
  "search_from r pv i [] =
     (case rmatch r (pv, i, []) [] (\<lambda>cu ca. Some (cu, ca)) of
        Some (cu, ca) \<Rightarrow> Some (i, cu, ca)
      | None \<Rightarrow> None)"
| "search_from r pv i (c # cs) =
     (case rmatch r (pv, i, c # cs) [] (\<lambda>cu ca. Some (cu, ca)) of
        Some (cu, ca) \<Rightarrow> Some (i, cu, ca)
      | None \<Rightarrow> search_from r (Some c) (Suc i) cs)"

definition re_search :: "re \<Rightarrow> string \<Rightarrow> rmatch_result option" where
  "re_search r s = search_from r None 0 s"

definition re_match :: "re \<Rightarrow> string \<Rightarrow> rmatch_result option" where
  "re_match r s =
     (case rmatch r (None, 0, s) [] (\<lambda>cu ca. Some (cu, ca)) of
        Some (cu, ca) \<Rightarrow> Some (0, cu, ca)
      | None \<Rightarrow> None)"

definition m_start :: "rmatch_result \<Rightarrow> nat" where
  "m_start m = fst m"

definition m_end :: "rmatch_result \<Rightarrow> nat" where
  "m_end m = cpos (fst (snd m))"

text \<open>\<^verbatim>\<open>m.group(n)\<close>: \<^const>\<open>None\<close> when the group took no part in the match.\<close>

definition m_group :: "string \<Rightarrow> rmatch_result \<Rightarrow> nat \<Rightarrow> string option" where
  "m_group s m n =
     (case map_of (snd (snd m)) n of
        None \<Rightarrow> None
      | Some (a, b) \<Rightarrow> Some (slice s a b))"

text \<open>
  \<^verbatim>\<open>finditer\<close>: the matches left to right, each search starting where the last match
  ended. Every pattern the source iterates matches at least one character; after a
  match that consumed nothing the iteration here stops.
\<close>

function finditer_from :: "re \<Rightarrow> char option \<Rightarrow> nat \<Rightarrow> string \<Rightarrow> rmatch_result list" where
  "finditer_from r pv i s =
     (case search_from r pv i s of
        None \<Rightarrow> []
      | Some m \<Rightarrow>
          m # (if length (crest (fst (snd m))) < length s
               then finditer_from r (fst (fst (snd m))) (m_end m) (crest (fst (snd m)))
               else []))"
  by pat_completeness auto
termination
  by (relation "measure (\<lambda>(r, pv, i, s). length s)") auto

definition finditer :: "re \<Rightarrow> string \<Rightarrow> rmatch_result list" where
  "finditer r s = finditer_from r None 0 s"

text \<open>The pattern language of the source, on top of \<open>re\<close>.\<close>

definition ch :: "char \<Rightarrow> re" where
  "ch c = Chr (\<lambda>x. x = c)"

definition lit :: "string \<Rightarrow> re" where
  "lit s = foldr (\<lambda>c r. Seq (ch c) r) s Eps"

definition plus :: "bool \<Rightarrow> re \<Rightarrow> re" where
  "plus g r = Seq r (Star g r)"

definition opt :: "re \<Rightarrow> re" where
  "opt r = Alt r Eps"

definition seqs :: "re list \<Rightarrow> re" where
  "seqs rs = foldr Seq rs Eps"

fun alts :: "re list \<Rightarrow> re" where
  "alts [] = Eps"
| "alts [r] = r"
| "alts (r # q # rs) = Alt r (alts (q # rs))"

definition ws :: re where
  "ws = Chr isspace"

definition wd :: re where
  "wd = Chr isword"

definition anych :: re where
  "anych = Chr (\<lambda>c. True)"

definition dot :: re where
  "dot = Chr (\<lambda>c. c \<noteq> CHR 0x0A)"

definition noneof :: "string \<Rightarrow> re" where
  "noneof s = Chr (\<lambda>c. c \<notin> set s)"

text \<open>
  \<^verbatim>\<open>re.sub(pattern, repl, s)\<close> for a constant \<^verbatim>\<open>repl\<close>: the text between the matches
  is kept, each match becomes \<^verbatim>\<open>repl\<close>.
\<close>

fun sub_spans :: "string \<Rightarrow> string \<Rightarrow> nat \<Rightarrow> (nat \<times> nat) list \<Rightarrow> string" where
  "sub_spans s repl p [] = drop p s"
| "sub_spans s repl p ((a, b) # ms) = slice s p a @ repl @ sub_spans s repl b ms"

definition re_sub :: "re \<Rightarrow> string \<Rightarrow> string \<Rightarrow> string" where
  "re_sub r repl s = sub_spans s repl 0 (map (\<lambda>m. (m_start m, m_end m)) (finditer r s))"

section \<open>check\_docs.py: undocumented public declarations\<close>

subsection \<open>is\_documented\<close>

text \<open>
  The source walks backwards from the line before the declaration, so the lines are
  taken here nearest first. Inside a comment that ends at \<^verbatim>\<open>*/\<close> it walks on to the
  line that opens it: \<^verbatim>\<open>/**\<close> answers True, \<^verbatim>\<open>/*\<close> resumes the walk above that line,
  and running out of lines answers False.
\<close>

fun documented_back :: "bool \<Rightarrow> string list \<Rightarrow> bool" where
  "documented_back in_comment [] = False"
| "documented_back True (l # ls) =
     (if contains l ''/**'' then True
      else if contains l ''/*'' then documented_back False ls
      else documented_back True ls)"
| "documented_back False (l # ls) =
     (let line = strip l in
        if line = [] then documented_back False ls
        else if startswith line ''//'' then documented_back False ls
        else if startswith line ''@'' then documented_back False ls
        else if endswith line ''*/'' then
          (if contains l ''/**'' then True
           else if contains l ''/*'' then documented_back False ls
           else documented_back True ls)
        else False)"

definition is_documented :: "string list \<Rightarrow> nat \<Rightarrow> bool" where
  "is_documented lines line_idx = documented_back False (rev (take line_idx lines))"

subsection \<open>get\_visibility and should\_check\_docs\<close>

definition dq :: char where
  "dq = CHR 0x22"

definition sq :: char where
  "sq = CHR 0x27"

definition string_lit_re :: re where
  "string_lit_re = seqs [ch dq, Star True (noneof [dq]), ch dq]"

definition char_lit_re :: re where
  "char_lit_re = seqs [ch sq, Star True (noneof [sq]), ch sq]"

definition private_re :: re where
  "private_re = seqs [Wordb, lit ''private'', Wordb]"

definition protected_bracket_re :: re where
  "protected_bracket_re = seqs [Wordb, lit ''protected'', Star True ws, ch CHR ''['']"

definition protected_re :: re where
  "protected_re = seqs [Wordb, lit ''protected'', Wordb]"

definition get_visibility :: "string \<Rightarrow> string" where
  "get_visibility line =
     (let line_cleaned = re_sub string_lit_re [] line;
          line_cleaned = re_sub char_lit_re [] line_cleaned
      in if re_search private_re line_cleaned \<noteq> None then ''private''
         else if re_search protected_bracket_re line_cleaned \<noteq> None then ''package-private''
         else if re_search protected_re line_cleaned \<noteq> None then ''protected''
         else ''public'')"

definition should_check_docs :: "string \<Rightarrow> bool" where
  "should_check_docs visibility = (visibility \<in> set [''public'', ''protected''])"

subsection \<open>VisibilityTracker\<close>

text \<open>The stack of (indent level, visibility), in the source's order: the top is last.\<close>

type_synonym visibility_tracker = "(nat \<times> string) list"

definition enter_container :: "visibility_tracker \<Rightarrow> nat \<Rightarrow> string \<Rightarrow> visibility_tracker" where
  "enter_container stack indent_level visibility = stack @ [(indent_level, visibility)]"

definition indent_of :: "string \<Rightarrow> nat" where
  "indent_of line = length line - length (lstrip line)"

definition update_for_line :: "visibility_tracker \<Rightarrow> string \<Rightarrow> visibility_tracker" where
  "update_for_line stack line =
     (if strip line = [] then stack
      else rev (dropWhile (\<lambda>f. indent_of line \<le> fst f) (rev stack)))"

definition is_in_private_container :: "visibility_tracker \<Rightarrow> bool" where
  "is_in_private_container stack =
     list_ex (\<lambda>f. snd f \<in> set [''private'', ''package-private'']) stack"

subsection \<open>BraceTracker\<close>

record brace_tracker =
  depth :: int
  in_method_body :: bool

definition line_comment_re :: re where
  "line_comment_re = seqs [lit ''//'', Star True dot, Eos]"

definition process_line :: "brace_tracker \<Rightarrow> string \<Rightarrow> bool \<Rightarrow> brace_tracker" where
  "process_line bt line is_method_def =
     (let stripped = strip line;
          cleaned = re_sub string_lit_re [] stripped;
          cleaned = re_sub char_lit_re [] cleaned;
          cleaned = re_sub line_comment_re [] cleaned;
          open_braces = count_char cleaned CHR ''{'';
          close_braces = count_char cleaned CHR ''}'';
          bt = (if is_method_def \<and> 0 < open_braces then bt\<lparr>in_method_body := True\<rparr> else bt);
          bt = bt\<lparr>depth := depth bt + int open_braces - int close_braces\<rparr>
      in if depth bt \<le> 0 then bt\<lparr>depth := 0, in_method_body := False\<rparr> else bt)"

definition is_in_method :: "brace_tracker \<Rightarrow> bool" where
  "is_in_method bt = in_method_body bt"

subsection \<open>analyze\_file\<close>

record entry =
  u_file :: string
  u_line :: nat
  u_type :: "string option"
  u_name :: "string option"
  u_content :: string

record scan_state =
  undocumented :: "entry list"
  in_multiline_comment :: bool
  tracker :: visibility_tracker
  brace :: brace_tracker

definition vis_prefix :: re where
  "vis_prefix =
     opt (seqs [alts [lit ''private'', lit ''protected''],
                opt (seqs [ch CHR ''['', Star True (noneof '']''), ch CHR '']'']),
                plus True ws])"

definition class_pattern :: re where
  "class_pattern =
     seqs [Bos, Star True ws, vis_prefix,
           Star True (alts [Seq (lit ''sealed'') (plus True ws),
                            Seq (lit ''final'') (plus True ws),
                            Seq (lit ''abstract'') (plus True ws)]),
           Grp 1 (alts [lit ''class'', lit ''trait'', lit ''object'', lit ''enum'']),
           plus True ws, Grp 2 (plus True wd)]"

definition def_pattern :: re where
  "def_pattern =
     seqs [Bos, Star True ws, vis_prefix,
           opt (Seq (lit ''override'') (plus True ws)),
           lit ''def'', plus True ws,
           Grp 1 (Alt (plus True wd) (plus True (Chr (\<lambda>c. \<not> isword c)))),
           Star True ws, Chr (\<lambda>c. c \<in> set ''[(:'')]"

definition val_pattern :: re where
  "val_pattern =
     seqs [Bos, Star True ws, vis_prefix, lit ''val'', plus True ws,
           Grp 1 (plus True wd), Star True ws, ch CHR '':'']"

definition var_pattern :: re where
  "var_pattern =
     seqs [Bos, Star True ws, vis_prefix, lit ''var'', plus True ws,
           Grp 1 (plus True wd), Star True ws, ch CHR '':'']"

definition mk_entry :: "string \<Rightarrow> nat \<Rightarrow> string option \<Rightarrow> string option \<Rightarrow> string \<Rightarrow> entry" where
  "mk_entry filepath i kind name stripped =
     \<lparr>u_file = filepath, u_line = i + 1, u_type = kind, u_name = name,
      u_content = take 80 stripped\<rparr>"

definition append_entry :: "scan_state \<Rightarrow> entry \<Rightarrow> scan_state" where
  "append_entry st e = st\<lparr>undocumented := undocumented st @ [e]\<rparr>"

text \<open>The part of the loop body that follows the def branch: vals and vars.\<close>

definition analyze_member :: "string \<Rightarrow> string list \<Rightarrow> scan_state \<Rightarrow> nat \<Rightarrow> string \<Rightarrow> scan_state" where
  "analyze_member filepath lines st i line =
     (let stripped = strip line;
          st = st\<lparr>brace := process_line (brace st) line False\<rparr>
      in if is_in_method (brace st) then st
         else if is_in_private_container (tracker st) then st
         else if \<not> should_check_docs (get_visibility line) then st
         else
           (let st = (case re_match val_pattern line of
                        None \<Rightarrow> st
                      | Some m \<Rightarrow>
                          if \<not> is_documented lines i
                          then append_entry st (mk_entry filepath i (Some ''val'') (m_group line m 1) stripped)
                          else st)
            in (case re_match var_pattern line of
                  None \<Rightarrow> st
                | Some m \<Rightarrow>
                    if \<not> is_documented lines i
                    then append_entry st (mk_entry filepath i (Some ''var'') (m_group line m 1) stripped)
                    else st)))"

text \<open>One iteration of the loop over \<^verbatim>\<open>enumerate(lines)\<close>.\<close>

definition analyze_line :: "string \<Rightarrow> string list \<Rightarrow> scan_state \<Rightarrow> nat \<Rightarrow> string \<Rightarrow> scan_state" where
  "analyze_line filepath lines st i line =
     (let stripped = strip line;
          st = st\<lparr>tracker := update_for_line (tracker st) line\<rparr>;
          st = (if contains stripped ''/*'' \<and> \<not> startswith stripped ''//''
                then st\<lparr>in_multiline_comment := True\<rparr> else st)
      in if contains stripped ''*/'' then st\<lparr>in_multiline_comment := False\<rparr>
         else if in_multiline_comment st then st
         else if stripped = [] \<or> startswith stripped ''//''
           then st\<lparr>brace := process_line (brace st) line False\<rparr>
         else
           (case re_match class_pattern line of
              Some m \<Rightarrow>
                (let visibility = get_visibility line;
                     st = st\<lparr>tracker := enter_container (tracker st) (indent_of line) visibility\<rparr>;
                     st = st\<lparr>brace := process_line (brace st) line False\<rparr>
                 in if should_check_docs visibility \<and> \<not> is_in_private_container (tracker st)
                    then (if \<not> is_documented lines i
                          then append_entry st (mk_entry filepath i (m_group line m 1) (m_group line m 2) stripped)
                          else st)
                    else st)
            | None \<Rightarrow>
                (case re_match def_pattern line of
                   Some m \<Rightarrow>
                     (let visibility = get_visibility line;
                          st = st\<lparr>brace := process_line (brace st) line True\<rparr>
                      in if is_in_private_container (tracker st) then st
                         else if should_check_docs visibility
                           then (if \<not> is_documented lines i
                                 then append_entry st (mk_entry filepath i (Some ''def'') (m_group line m 1) stripped)
                                 else st)
                         else st)
                 | None \<Rightarrow> analyze_member filepath lines st i line)))"

definition init_state :: scan_state where
  "init_state =
     \<lparr>undocumented = [], in_multiline_comment = False, tracker = [],
      brace = \<lparr>depth = 0, in_method_body = False\<rparr>\<rparr>"

text \<open>The state after the first \<open>n\<close> lines of the file.\<close>

definition scan_upto :: "string \<Rightarrow> string list \<Rightarrow> nat \<Rightarrow> scan_state" where
  "scan_upto filepath lines n =
     fold (\<lambda>(i, line) st. analyze_line filepath lines st i line)
       (take n (enumerate 0 lines)) init_state"

text \<open>
  \<^verbatim>\<open>analyze_file\<close>: the file is its lines as \<^verbatim>\<open>readlines\<close> gives them, or \<^const>\<open>None\<close>
  when it cannot be read, and then nothing is reported.
\<close>

definition analyze_file :: "string \<Rightarrow> string list option \<Rightarrow> entry list" where
  "analyze_file filepath content =
     (case content of
        None \<Rightarrow> []
      | Some lines \<Rightarrow> undocumented (scan_upto filepath lines (length lines)))"

subsection \<open>Private containers and visibility\<close>







text \<open>
  Claim C7. The undocumented line \<^verbatim>\<open>protected[pkg] def baz: Int = 1\<close> is classified
  package-private, is not checked and is not reported; the bare
  \<^verbatim>\<open>protected def baz: Int = 1\<close> is classified protected, is checked, and is reported as
  an undocumented def.
\<close>

theorem visibility_protected_scenario:
  "get_visibility ''protected[pkg] def baz: Int = 1'' = ''package-private''
   \<and> should_check_docs ''package-private'' = False
   \<and> analyze_file ''Baz.scala'' (Some [''protected[pkg] def baz: Int = 1'']) = []
   \<and> get_visibility ''protected def baz: Int = 1'' = ''protected''
   \<and> should_check_docs ''protected'' = True
   \<and> analyze_file ''Baz.scala'' (Some [''protected def baz: Int = 1'']) =
       [\<lparr>u_file = ''Baz.scala'', u_line = 1, u_type = Some ''def'', u_name = Some ''baz'',
         u_content = ''protected def baz: Int = 1''\<rparr>]"
  by code_simp

section \<open>scaladoc\_checker.py: tags against the declaration\<close>

subsection \<open>Patterns\<close>

definition SCALADOC_RE :: re where
  "SCALADOC_RE = seqs [lit ''/**'', Grp 1 (Star False anych), lit ''*/'']"

definition TAG_RE :: re where
  "TAG_RE =
     seqs [Bol, Star True ws, ch CHR ''*'', Star True ws, ch CHR ''@'', Grp 1 (plus True wd),
           Star True ws, opt (Grp 2 (plus True wd))]"

definition DECL_START_RE :: re where
  "DECL_START_RE =
     seqs [Bos, Star True ws,
           opt (Seq (ch CHR ''@'')
                  (plus True (Chr (\<lambda>c. isword c \<or> c = CHR ''('' \<or> c = CHR '')'' \<or> isspace c)))),
           Star True ws,
           opt (alts [lit ''private'', lit ''protected'', lit ''final'', lit ''override'',
                      lit ''inline'', lit ''implicit'', lit ''given'', lit ''export'',
                      lit ''opaque'', lit ''sealed'', Seq (lit ''case'') (plus True ws)]),
           Star True ws,
           Grp 1 (alts [lit ''class'', lit ''trait'', lit ''object'', lit ''def'', lit ''val'',
                        lit ''var'']),
           Wordb]"

definition sig_tail :: "re list" where
  "sig_tail =
     [plus True ws,
      Grp 1 (plus True (Chr (\<lambda>c. \<not> isspace c \<and> c \<noteq> CHR ''('' \<and> c \<noteq> CHR ''[''))),
      Star True ws,
      opt (seqs [ch CHR ''['', Grp 2 (Star False anych), ch CHR '']'']),
      Star True ws,
      opt (Grp 3 (seqs [ch CHR ''('', Star True (noneof '')''), ch CHR '')'']))]"

definition DEF_RE :: re where
  "DEF_RE = seqs ([Bos, Star True ws, lit ''def''] @ sig_tail)"

definition CLASS_RE :: re where
  "CLASS_RE = seqs ([Bos, Star True ws, alts [lit ''class'', lit ''trait'']] @ sig_tail)"

text \<open>The patterns the source compiles where it uses them.\<close>

definition RETURN_RE :: re where
  "RETURN_RE = seqs [ch CHR '':'', Star True ws, Grp 1 (plus True (noneof ''={\<newline>''))]"

definition RETURN_END_RE :: re where
  "RETURN_END_RE = seqs [plus True ws, alts [ch CHR ''='', ch CHR ''{'']]"

definition VAL_NAME_RE :: re where
  "VAL_NAME_RE =
     seqs [Wordb, Grp 1 (alts [lit ''val'', lit ''var'']), plus True ws,
           Grp 2 (plus True (Chr isasciiword))]"

definition OBJECT_NAME_RE :: re where
  "OBJECT_NAME_RE =
     seqs [Wordb, lit ''object'', plus True ws, Grp 1 (plus True (Chr isasciiword))]"

definition PAREN_GROUP_RE :: re where
  "PAREN_GROUP_RE = seqs [ch CHR ''('', Grp 1 (Star True (noneof '')'')), ch CHR '')'']"

definition PARAM_NAME_RE :: re where
  "PARAM_NAME_RE = seqs [Grp 1 (plus True (Chr isasciiword)), Star True ws, ch CHR '':'']"

definition STAR_LINE_RE :: re where
  "STAR_LINE_RE = seqs [Bos, Star True ws, ch CHR ''*'', Grp 1 (Star True dot), Eos]"

text \<open>
  \<^verbatim>\<open>m.group(n) or ""\<close>, and \<^verbatim>\<open>m.group(n)\<close> where the value is used as a string: group
  \<open>n\<close> is then a group every match of the pattern has.
\<close>

definition group_or_empty :: "string option \<Rightarrow> string" where
  "group_or_empty g = (case g of None \<Rightarrow> [] | Some t \<Rightarrow> t)"

definition group_text :: "string \<Rightarrow> rmatch_result \<Rightarrow> nat \<Rightarrow> string" where
  "group_text s m n = group_or_empty (m_group s m n)"

text \<open>\<^verbatim>\<open>re.split(pattern, s)\<close> for a pattern without groups.\<close>

fun split_spans :: "string \<Rightarrow> nat \<Rightarrow> (nat \<times> nat) list \<Rightarrow> string list" where
  "split_spans s p [] = [drop p s]"
| "split_spans s p ((a, b) # ms) = slice s p a # split_spans s b ms"

definition re_split :: "re \<Rightarrow> string \<Rightarrow> string list" where
  "re_split r s = split_spans s 0 (map (\<lambda>m. (m_start m, m_end m)) (finditer r s))"

subsection \<open>Errors\<close>

datatype py_error = IndexError | AttributeError

definition index0 :: "'a list \<Rightarrow> py_error + 'a" where
  "index0 xs = (case xs of [] \<Rightarrow> Inl IndexError | x # _ \<Rightarrow> Inr x)"

definition bind_err :: "py_error + 'a \<Rightarrow> ('a \<Rightarrow> py_error + 'b) \<Rightarrow> py_error + 'b" where
  "bind_err x f = (case x of Inl e \<Rightarrow> Inl e | Inr a \<Rightarrow> f a)"

fun map_err :: "('a \<Rightarrow> py_error + 'b) \<Rightarrow> 'a list \<Rightarrow> py_error + 'b list" where
  "map_err f [] = Inr []"
| "map_err f (x # xs) = bind_err (f x) (\<lambda>y. bind_err (map_err f xs) (\<lambda>ys. Inr (y # ys)))"

subsection \<open>extract\_scaladoc\_blocks and extract\_tags\<close>

definition extract_scaladoc_blocks :: "string \<Rightarrow> (nat \<times> nat \<times> string) list" where
  "extract_scaladoc_blocks text =
     map (\<lambda>m. (m_start m, m_end m, group_text text m 1)) (finditer SCALADOC_RE text)"

record tags =
  t_param :: "string list"
  t_tparam :: "string list"
  t_return :: "string list"

definition add_tag :: "string \<Rightarrow> rmatch_result \<Rightarrow> tags \<Rightarrow> tags" where
  "add_tag block m tags =
     (let tag = group_text block m 1;
          name = group_or_empty (m_group block m 2)
      in if tag = ''param'' then tags\<lparr>t_param := t_param tags @ [name]\<rparr>
         else if tag = ''tparam'' then tags\<lparr>t_tparam := t_tparam tags @ [name]\<rparr>
         else if tag = ''return'' then tags\<lparr>t_return := t_return tags @ [[]]\<rparr>
         else tags)"

definition extract_tags :: "string \<Rightarrow> tags" where
  "extract_tags block =
     fold (add_tag block) (finditer TAG_RE block) \<lparr>t_param = [], t_tparam = [], t_return = []\<rparr>"

subsection \<open>get\_declaration\_after\<close>

definition stops_chunk :: "string \<Rightarrow> bool" where
  "stops_chunk line =
     (contains line ''{'' \<or> contains line ''='' \<or> endswith (strip line) '')''
      \<or> endswith (strip line) '':'')"

fun chunk_loop :: "(nat \<times> string) list \<Rightarrow> string list" where
  "chunk_loop [] = []"
| "chunk_loop ((i, line) # rest) =
     (if i = 0 \<and> strip line = [] then chunk_loop rest
      else if stops_chunk line then [line]
      else line # chunk_loop rest)"

definition get_declaration_after :: "string \<Rightarrow> nat \<Rightarrow> string \<times> nat" where
  "get_declaration_after text pos =
     (let tail = drop pos text;
          start_line = count_char (take pos text) CHR 0x0A + 1;
          lines = splitlines tail;
          chunk_lines = chunk_loop (enumerate 0 (take 40 lines))
      in (join ''\<newline>'' chunk_lines, start_line))"

subsection \<open>split\_by\_commas\_top\_level and extract\_param\_names\_from\_parens\<close>

text \<open>The nesting depth is a natural number: \<^verbatim>\<open>max(0, depth-1)\<close> is \<open>nesting - 1\<close> there.\<close>

fun split_commas_loop :: "string \<Rightarrow> nat \<Rightarrow> string \<Rightarrow> string list" where
  "split_commas_loop cur nesting [] = (let last = strip cur in if last \<noteq> [] then [last] else [])"
| "split_commas_loop cur nesting (c # cs) =
     (if c \<in> set ''([{'' then split_commas_loop (cur @ [c]) (nesting + 1) cs
      else if c \<in> set '')]}'' then split_commas_loop (cur @ [c]) (nesting - 1) cs
      else if c = CHR '','' \<and> nesting = 0 then cur # split_commas_loop [] nesting cs
      else split_commas_loop (cur @ [c]) nesting cs)"

definition split_by_commas_top_level :: "string \<Rightarrow> string list" where
  "split_by_commas_top_level s = split_commas_loop [] 0 s"

text \<open>
  The body of the inner loop: the names one part adds to \<^verbatim>\<open>names\<close>. \<^verbatim>\<open>p.split()[0]\<close>
  and \<^verbatim>\<open>rest[1]\<close> are reads that raise IndexError out of range.
\<close>

definition param_names_of_part :: "string \<Rightarrow> py_error + string list" where
  "param_names_of_part p0 =
     (let p = strip p0 in
        if p = [] then Inr []
        else (case re_match PARAM_NAME_RE p of
                Some m \<Rightarrow> Inr [group_text p m 1]
              | None \<Rightarrow>
                  bind_err (index0 (split_ws p)) (\<lambda>tok.
                    if tok \<in> set [''implicit'', ''using''] then
                      (let rest = split_ws p in
                         if 1 < length rest then Inr [rest ! 1] else Inr [])
                    else Inr [tok])))"

definition extract_param_names_from_parens :: "string \<Rightarrow> py_error + string list" where
  "extract_param_names_from_parens parens =
     (if parens = [] then Inr []
      else
        (let groups = map (\<lambda>m. group_text parens m 1) (finditer PAREN_GROUP_RE parens)
         in bind_err
              (map_err param_names_of_part (concat (map split_by_commas_top_level groups)))
              (\<lambda>nss. Inr (concat nss))))"

subsection \<open>parse\_declaration\<close>

record decl =
  d_kind :: string
  d_name :: string
  d_tparams :: "string list"
  d_params :: "string list"
  d_return :: "string option"

definition unknown_decl :: decl where
  "unknown_decl =
     \<lparr>d_kind = ''unknown'', d_name = [], d_tparams = [], d_params = [], d_return = None\<rparr>"

text \<open>\<^verbatim>\<open>tp.strip().split(":")[0].split("=")[0].strip()\<close>.\<close>

definition tparam_name :: "string \<Rightarrow> py_error + string" where
  "tparam_name tp =
     bind_err (index0 (split_on CHR '':'' (strip tp))) (\<lambda>a.
       bind_err (index0 (split_on CHR ''='' a)) (\<lambda>b. Inr (strip b)))"

text \<open>
  What the def branch and the class/trait branch do with the match of their pattern:
  the name, the type parameters and the parameters.
\<close>

definition fill_signature :: "string \<Rightarrow> rmatch_result option \<Rightarrow> decl \<Rightarrow> py_error + decl" where
  "fill_signature chunk mo res =
     (case mo of
        None \<Rightarrow> Inr res
      | Some m \<Rightarrow>
          (let res = res\<lparr>d_name := group_text chunk m 1\<rparr>;
               tps = group_or_empty (m_group chunk m 2)
           in bind_err
                (if tps \<noteq> [] then map_err tparam_name (split_on CHR '','' tps)
                 else Inr (d_tparams res))
                (\<lambda>tparams.
                   bind_err (extract_param_names_from_parens (group_or_empty (m_group chunk m 3)))
                     (\<lambda>params. Inr (res\<lparr>d_tparams := tparams, d_params := params\<rparr>)))))"

text \<open>
  The return type of a def. The source computes \<^verbatim>\<open>after_params\<close>, the chunk after the
  match of \<^verbatim>\<open>DEF_RE\<close>, and then searches the whole \<^verbatim>\<open>chunk\<close>.
\<close>

definition find_return :: "string \<Rightarrow> rmatch_result option \<Rightarrow> decl \<Rightarrow> py_error + decl" where
  "find_return chunk mo res =
     (let after_params = (case mo of Some m \<Rightarrow> drop (m_end m) chunk | None \<Rightarrow> chunk)
      in case re_search RETURN_RE chunk of
           None \<Rightarrow> Inr res
         | Some ret_match \<Rightarrow>
             (case m_group chunk ret_match 1 of
                None \<Rightarrow> Inl AttributeError
              | Some g \<Rightarrow>
                  bind_err (index0 (re_split RETURN_END_RE (strip g)))
                    (\<lambda>ret. Inr (res\<lparr>d_return := Some (strip ret)\<rparr>))))"

definition first_line_of :: "string \<Rightarrow> py_error + string" where
  "first_line_of chunk =
     (if strip chunk \<noteq> [] then index0 (splitlines (strip chunk)) else Inr [])"

definition kind_of_chunk :: "string \<Rightarrow> string \<Rightarrow> string option" where
  "kind_of_chunk first_line chunk =
     (case re_search DECL_START_RE first_line of
        Some m \<Rightarrow> Some (group_text first_line m 1)
      | None \<Rightarrow>
          (case re_search DECL_START_RE chunk of
             Some m \<Rightarrow> Some (group_text chunk m 1)
           | None \<Rightarrow> None))"

definition parse_declaration :: "string \<Rightarrow> py_error + decl" where
  "parse_declaration chunk =
     bind_err (first_line_of chunk) (\<lambda>first_line.
       case kind_of_chunk first_line chunk of
         None \<Rightarrow> Inr unknown_decl
       | Some kind \<Rightarrow>
           (let res = unknown_decl\<lparr>d_kind := kind\<rparr> in
              if kind = ''def'' then
                (let m = re_search DEF_RE chunk in
                   bind_err (fill_signature chunk m res) (find_return chunk m))
              else if kind \<in> set [''class'', ''trait''] then
                fill_signature chunk (re_search CLASS_RE chunk) res
              else if kind \<in> set [''val'', ''var''] then
                (case re_search VAL_NAME_RE chunk of
                   Some m \<Rightarrow> Inr (res\<lparr>d_name := group_text chunk m 2\<rparr>)
                 | None \<Rightarrow> Inr res)
              else if kind = ''object'' then
                (case re_search OBJECT_NAME_RE chunk of
                   Some m \<Rightarrow> Inr (res\<lparr>d_name := group_text chunk m 1\<rparr>)
                 | None \<Rightarrow> Inr res)
              else Inr res))"

subsection \<open>Tag reconciliation\<close>

definition declared_tparams :: "decl \<Rightarrow> string list" where
  "declared_tparams decl = filter (\<lambda>t. t \<noteq> []) (d_tparams decl)"

definition missing_tparam :: "tags \<Rightarrow> decl \<Rightarrow> string list" where
  "missing_tparam tags decl = filter (\<lambda>t. t \<notin> set (t_tparam tags)) (declared_tparams decl)"

definition extra_tparam :: "tags \<Rightarrow> decl \<Rightarrow> string list" where
  "extra_tparam tags decl = filter (\<lambda>t. t \<notin> set (declared_tparams decl)) (t_tparam tags)"

definition missing_param :: "tags \<Rightarrow> decl \<Rightarrow> string list" where
  "missing_param tags decl = filter (\<lambda>p. p \<notin> set (t_param tags)) (d_params decl)"

definition extra_param :: "tags \<Rightarrow> decl \<Rightarrow> string list" where
  "extra_param tags decl = filter (\<lambda>p. p \<notin> set (d_params decl)) (t_param tags)"

definition documented_return :: "tags \<Rightarrow> bool" where
  "documented_return tags = (0 < length (t_return tags))"

text \<open>The issues of the "Validate return" part; \<^verbatim>\<open>if ret:\<close> is false for None and for "".\<close>

definition return_issues :: "tags \<Rightarrow> decl \<Rightarrow> string list" where
  "return_issues tags decl =
     (if d_kind decl = ''def'' then
        (case d_return decl of
           None \<Rightarrow> []
         | Some ret \<Rightarrow>
             if ret = [] then []
             else if startswith (strip ret) ''Unit'' then
               (if documented_return tags then [''@return present but return type is Unit'']
                else [])
             else
               (if \<not> documented_return tags then [''Missing @return for non-Unit return type'']
                else []))
      else [])"

definition issues_of :: "tags \<Rightarrow> decl \<Rightarrow> string list" where
  "issues_of tags decl =
     (if missing_tparam tags decl \<noteq> []
      then [''Missing @tparam for: '' @ join '', '' (missing_tparam tags decl)] else [])
     @ (if extra_tparam tags decl \<noteq> []
        then [''@tparam refers to unknown type params: '' @ join '', '' (extra_tparam tags decl)]
        else [])
     @ (if missing_param tags decl \<noteq> []
        then [''Missing @param for: '' @ join '', '' (missing_param tags decl)] else [])
     @ (if extra_param tags decl \<noteq> []
        then [''@param refers to unknown params: '' @ join '', '' (extra_param tags decl)]
        else [])
     @ return_issues tags decl"

subsection \<open>Inserting the missing tags\<close>

definition insert_lines_of :: "tags \<Rightarrow> decl \<Rightarrow> string list" where
  "insert_lines_of tags decl =
     map (\<lambda>tp. ''@tparam '' @ tp @ '' TODO FILL IN TPARAM'') (missing_tparam tags decl)
     @ map (\<lambda>p. ''@param '' @ p @ '' TODO FILL IN PARAM'') (missing_param tags decl)
     @ (if d_kind decl = ''def''
           \<and> (case d_return decl of
                 None \<Rightarrow> False
               | Some ret \<Rightarrow> ret \<noteq> [] \<and> \<not> documented_return tags
                             \<and> \<not> startswith (strip ret) ''Unit'')
        then [''@return TODO FILL IN RETURN''] else [])"

definition preserved_line :: "string \<Rightarrow> bool \<times> string" where
  "preserved_line l =
     (case re_match STAR_LINE_RE l of
        Some mstar \<Rightarrow> (True, group_text l mstar 1)
      | None \<Rightarrow> (False, strip l))"

text \<open>The text of the line of \<open>start\<close> before it, and its leading whitespace.\<close>

definition line_prefix_of :: "string \<Rightarrow> nat \<Rightarrow> string" where
  "line_prefix_of text start =
     (case rfind_char text CHR 0x0A start of
        None \<Rightarrow> take start text
      | Some line_start_idx \<Rightarrow> slice text (line_start_idx + 1) start)"

definition leading_ws_of :: "string \<Rightarrow> nat \<Rightarrow> string" where
  "leading_ws_of text start = takeWhile isspace (line_prefix_of text start)"

definition emit_preserved :: "string \<Rightarrow> bool \<times> string \<Rightarrow> string" where
  "emit_preserved leading_ws pl =
     (case pl of
        (is_star, content) \<Rightarrow>
          if is_star then
            (if content = [] then leading_ws @ '' *'' else leading_ws @ '' *'' @ content)
          else leading_ws @ '' * '' @ content)"

definition new_full_of :: "string \<Rightarrow> nat \<Rightarrow> string \<Rightarrow> string list \<Rightarrow> string" where
  "new_full_of text start block insert_lines =
     (let preserved_lines = map preserved_line (splitlines block);
          leading_ws = leading_ws_of text start;
          parts = [''/**'']
                  @ map (emit_preserved leading_ws) preserved_lines
                  @ map (\<lambda>ln. leading_ws @ '' * '' @ ln) insert_lines
                  @ [leading_ws @ '' */'']
      in join ''\<newline>'' parts)"

text \<open>\<^verbatim>\<open>s[:i]\<close> and \<^verbatim>\<open>s[i:]\<close> for a Python integer \<open>i\<close>.\<close>

definition py_upto :: "string \<Rightarrow> int \<Rightarrow> string" where
  "py_upto s i = (if 0 \<le> i then take (nat i) s else take (length s - nat (- i)) s)"

definition py_from :: "string \<Rightarrow> int \<Rightarrow> string" where
  "py_from s i = (if 0 \<le> i then drop (nat i) s else drop (length s - nat (- i)) s)"

text \<open>
  The replacement both tools make: \<open>new_text\<close> with the span from \<open>start\<close> to \<open>stop\<close>
  of the original text, shifted by \<open>offset\<close>, replaced by \<open>new_block\<close>.
\<close>

definition splice :: "string \<Rightarrow> int \<Rightarrow> nat \<Rightarrow> nat \<Rightarrow> string \<Rightarrow> string" where
  "splice new_text offset start stop new_block =
     py_upto new_text (int start + offset) @ new_block @ py_from new_text (int stop + offset)"

subsection \<open>analyze\_file\<close>

record result =
  r_line :: nat
  r_decl :: decl
  r_tags :: tags
  r_issues :: "string list"
  r_scaladoc_excerpt :: "string list"

record checker_state =
  c_new_text :: string
  c_offset :: int
  c_results :: "result list"

text \<open>One iteration of the loop over the blocks; an exception leaves the loop.\<close>

definition analyze_block :: "string \<Rightarrow> bool \<Rightarrow> rmatch_result \<Rightarrow> checker_state \<Rightarrow> py_error + checker_state" where
  "analyze_block text fix m st =
     (let start = m_start m;
          stop = m_end m;
          block = group_text text m 1;
          tags = extract_tags block
      in case get_declaration_after text stop of
           (chunk, line) \<Rightarrow>
             bind_err (parse_declaration chunk) (\<lambda>decl.
               let issues = issues_of tags decl;
                   insert_lines = insert_lines_of tags decl;
                   st = (if fix \<and> insert_lines \<noteq> [] then
                           (let new_full = new_full_of text start block insert_lines in
                              st\<lparr>c_new_text := splice (c_new_text st) (c_offset st) start stop new_full,
                                 c_offset := c_offset st + int (length new_full)
                                               - (int stop - int start)\<rparr>)
                         else st)
               in Inr (st\<lparr>c_results := c_results st
                            @ [\<lparr>r_line = line, r_decl = decl, r_tags = tags, r_issues = issues,
                                r_scaladoc_excerpt = take 3 (splitlines (strip block))\<rparr>]\<rparr>)))"

fun fold_err :: "('a \<Rightarrow> 's \<Rightarrow> py_error + 's) \<Rightarrow> 'a list \<Rightarrow> 's \<Rightarrow> py_error + 's" where
  "fold_err f [] s = Inr s"
| "fold_err f (x # xs) s = bind_err (f x s) (fold_err f xs)"

definition scan_blocks :: "string \<Rightarrow> bool \<Rightarrow> py_error + checker_state" where
  "scan_blocks text fix =
     fold_err (analyze_block text fix) (finditer SCALADOC_RE text)
       \<lparr>c_new_text = text, c_offset = 0, c_results = []\<rparr>"

text \<open>
  \<^verbatim>\<open>analyze_file\<close> of the checker: the file is its text; the value is the results of
  the report and the text of the file afterwards (written when \<^verbatim>\<open>fix\<close> is set and
  the text changed).
\<close>

definition analyze_file_checker :: "string \<Rightarrow> bool \<Rightarrow> py_error + result list \<times> string" where
  "analyze_file_checker text fix =
     bind_err (scan_blocks text fix) (\<lambda>st.
       Inr (c_results st, if fix \<and> c_new_text st \<noteq> text then c_new_text st else text))"

subsection \<open>summarize\_reports and main\<close>

definition summarize_reports :: "result list list \<Rightarrow> nat" where
  "summarize_reports reports =
     sum_list (map (\<lambda>r. sum_list (map (\<lambda>item. length (r_issues item)) r)) reports)"

text \<open>
  The exit code of \<^verbatim>\<open>main\<close>. The folder is \<^const>\<open>None\<close> when it is not a directory,
  and else the texts of its Scala files; a file whose analysis raises adds no report.
\<close>

definition checker_main :: "string list option \<Rightarrow> bool \<Rightarrow> nat" where
  "checker_main folder fix =
     (case folder of
        None \<Rightarrow> 2
      | Some files \<Rightarrow>
          (let reports = concat (map (\<lambda>f. case analyze_file_checker f fix of
                                             Inl e \<Rightarrow> []
                                           | Inr (rs, written) \<Rightarrow> [rs]) files);
               issues = summarize_reports reports
           in if issues = 0 then 0 else 1))"

section \<open>scaladoc\_indent\_fixer.py: indentation of the comment lines\<close>

definition STAR_PREFIX_RE :: re where
  "STAR_PREFIX_RE = seqs [Bos, Grp 1 (Star True ws), ch CHR ''*'']"

text \<open>
  The loop over \<^verbatim>\<open>reversed(inner_lines)\<close> leaves at its first element: only the last
  line of the block decides.
\<close>

definition had_trailing_star_blank :: "string list \<Rightarrow> bool" where
  "had_trailing_star_blank inner_lines =
     (case rev inner_lines of
        [] \<Rightarrow> False
      | r # _ \<Rightarrow>
          (case re_match STAR_LINE_RE r of
             Some mrev \<Rightarrow> strip (group_text r mrev 1) = []
           | None \<Rightarrow> strip r = []))"

definition star_prefixes :: "string list \<Rightarrow> string list" where
  "star_prefixes inner_lines =
     concat (map (\<lambda>l. case re_match STAR_PREFIX_RE l of
                         Some mstar \<Rightarrow> [group_text l mstar 1]
                       | None \<Rightarrow> []) inner_lines)"

definition need_rewrite :: "bool \<Rightarrow> string \<Rightarrow> string list \<Rightarrow> bool" where
  "need_rewrite normalize_all leading_ws inner_lines =
     (normalize_all \<or> length (star_prefixes inner_lines) = 0
      \<or> list_ex (\<lambda>p. p \<noteq> leading_ws) (star_prefixes inner_lines))"

definition emit_preserve :: "string \<Rightarrow> string \<Rightarrow> string" where
  "emit_preserve leading_ws c =
     (if startswith c '' '' then leading_ws @ '' *'' @ c else leading_ws @ '' * '' @ c)"

definition emit_normalized :: "string \<Rightarrow> string \<Rightarrow> string" where
  "emit_normalized leading_ws c =
     (let cs = lstrip c in
        if cs = [] then leading_ws @ '' *'' else leading_ws @ '' * '' @ cs)"

text \<open>The loop over the inner lines: \<open>in_code_block\<close>, \<open>in_pre_block\<close> and the parts.\<close>

fun emit_lines :: "string \<Rightarrow> bool \<Rightarrow> bool \<Rightarrow> string list \<Rightarrow> string list" where
  "emit_lines leading_ws in_code_block in_pre_block [] = []"
| "emit_lines leading_ws in_code_block in_pre_block (l # ls) =
     (let content = (case re_match STAR_LINE_RE l of
                       Some mstar \<Rightarrow> group_text l mstar 1
                     | None \<Rightarrow> l);
          stripped_for_fence = lstrip content
      in if \<not> in_code_block \<and> startswith stripped_for_fence ''{{{'' then
           emit_preserve leading_ws content # emit_lines leading_ws True in_pre_block ls
         else if in_code_block then
           emit_preserve leading_ws content
             # emit_lines leading_ws (\<not> contains content ''}}}'') in_pre_block ls
         else if \<not> in_pre_block \<and> startswith (lower stripped_for_fence) ''<pre>'' then
           emit_preserve leading_ws content # emit_lines leading_ws in_code_block True ls
         else if in_pre_block then
           emit_preserve leading_ws content
             # emit_lines leading_ws in_code_block
                 (\<not> contains (lower stripped_for_fence) ''</pre>'') ls
         else if startswith content '' '' then
           emit_preserve leading_ws content # emit_lines leading_ws in_code_block in_pre_block ls
         else
           emit_normalized leading_ws content
             # emit_lines leading_ws in_code_block in_pre_block ls)"

definition new_block_of :: "string \<Rightarrow> string list \<Rightarrow> string" where
  "new_block_of leading_ws inner_lines =
     (let parts = [''/**''] @ emit_lines leading_ws False False inner_lines;
          parts = (if \<not> had_trailing_star_blank inner_lines \<and> last parts = leading_ws @ '' *''
                   then butlast parts else parts);
          parts = parts @ [leading_ws @ '' */'']
      in join ''\<newline>'' parts)"

text \<open>
  The preview of a block in the report: its first line. A text that is not blank has a
  first line.
\<close>

definition preview :: "string \<Rightarrow> string" where
  "preview b =
     (if strip b \<noteq> [] then (case splitlines (strip b) of [] \<Rightarrow> [] | x # _ \<Rightarrow> x)
      else take 40 b)"

record fixer_state =
  f_new_text :: string
  f_offset :: int
  f_changes :: "(nat \<times> string \<times> string) list"

text \<open>One iteration of the loop over the blocks.\<close>

definition fix_block :: "string \<Rightarrow> bool \<Rightarrow> rmatch_result \<Rightarrow> fixer_state \<Rightarrow> fixer_state" where
  "fix_block text normalize_all m st =
     (let start = m_start m;
          stop = m_end m;
          inner = group_text text m 1;
          start_line = (case rfind_char text CHR 0x0A start of
                          None \<Rightarrow> 1
                        | Some line_start_idx \<Rightarrow> count_char (take start text) CHR 0x0A + 1);
          leading_ws = leading_ws_of text start;
          inner_lines = splitlines inner;
          original_block = slice text start stop
      in if \<not> contains original_block ''\<newline>'' \<and> \<not> normalize_all then st
         else if \<not> need_rewrite normalize_all leading_ws inner_lines then st
         else
           (let new_block = new_block_of leading_ws inner_lines in
              if new_block \<noteq> original_block then
                st\<lparr>f_new_text := splice (f_new_text st) (f_offset st) start stop new_block,
                   f_offset := f_offset st + int (length new_block) - (int stop - int start),
                   f_changes := f_changes st
                                  @ [(start_line, preview original_block, preview new_block)]\<rparr>
              else st))"

definition analyze_and_fix_text :: "string \<Rightarrow> bool \<Rightarrow> string \<times> (nat \<times> string \<times> string) list" where
  "analyze_and_fix_text text normalize_all =
     (let st = fold (fix_block text normalize_all) (finditer SCALADOC_RE text)
                 \<lparr>f_new_text = text, f_offset = 0, f_changes = []\<rparr>
      in (f_new_text st, f_changes st))"

text \<open>
  The exit code of \<^verbatim>\<open>main\<close>. The folder is \<^const>\<open>None\<close> when it is not a directory,
  and else the texts of its Scala files.
\<close>

definition fixer_main :: "string list option \<Rightarrow> bool \<Rightarrow> bool \<Rightarrow> nat" where
  "fixer_main folder fix normalize_all =
     (case folder of
        None \<Rightarrow> 2
      | Some files \<Rightarrow>
          (let changed_files = filter (\<lambda>f. snd (analyze_and_fix_text f normalize_all) \<noteq> []) files
           in if \<not> fix \<and> changed_files \<noteq> [] then 1 else 0))"

section \<open>Properties of the checker\<close>

subsection \<open>The return type of a def\<close>

text \<open>
  Claim C1. For the text \<^verbatim>\<open>/** Doc. */\<close> followed on the next line by
  \<^verbatim>\<open> def foo[T](x: T): T = x\<close>, the block ends at offset 11, the declaration after it is
  that line, and \<^verbatim>\<open>parse_declaration\<close> finds the kind, the name, the type parameter and
  the parameter; the return type it finds is the text after the first colon of the chunk,
  the one inside the parameter list, and not \<^verbatim>\<open>T\<close>.
\<close>

theorem parse_declaration_foo_return:
  "extract_scaladoc_blocks (''/** Doc. */'' @ [CHR 0x0A] @ '' def foo[T](x: T): T = x'')
     = [(0, 11, '' Doc. '')]
   \<and> get_declaration_after (''/** Doc. */'' @ [CHR 0x0A] @ '' def foo[T](x: T): T = x'') 11
     = ('' def foo[T](x: T): T = x'', 1)
   \<and> parse_declaration '' def foo[T](x: T): T = x''
     = Inr \<lparr>d_kind = ''def'', d_name = ''foo'', d_tparams = [''T''], d_params = [''x''],
            d_return = Some ''T): T''\<rparr>"
  by code_simp

subsection \<open>Return tags of Unit defs\<close>

text \<open>The return type parsed, the \<^verbatim>\<open>@return\<close> tags found and the issues, for each block.\<close>

definition return_report :: "string \<Rightarrow> py_error + (string option \<times> string list \<times> string list) list" where
  "return_report text =
     map_sum id (\<lambda>(results, new_text).
         map (\<lambda>r. (d_return (r_decl r), t_return (r_tags r), r_issues r)) results)
       (analyze_file_checker text False)"

text \<open>
  Claim C4. For the documented \<^verbatim>\<open>def run(x: Int): Unit = ()\<close> the return type parsed is
  \<^verbatim>\<open>Int): Unit\<close> and not \<^verbatim>\<open>Unit\<close>: without a \<^verbatim>\<open>@return\<close> tag the issue "Missing @return" is
  emitted, and with a \<^verbatim>\<open>@return\<close> tag no issue is emitted. For \<^verbatim>\<open>def run(x: Int) = ()\<close>, a
  def with no return type, the return type parsed is \<^verbatim>\<open>Int)\<close> and "Missing @return" is
  emitted. For defs with no typed parameter the issues are the ones of the claim:
  \<^verbatim>\<open>def run(): Unit = ()\<close> with a \<^verbatim>\<open>@return\<close> tag has the issue "@return present but return
  type is Unit" and without the tag has none, and \<^verbatim>\<open>def run = ()\<close> has none.
\<close>

theorem unit_def_with_parameter_return_issues:
  "return_report ''/** Runs.\<newline> * @param x n\<newline> */\<newline>def run(x: Int): Unit = ()''
     = Inr [(Some ''Int): Unit'', [], [''Missing @return for non-Unit return type''])]
   \<and> return_report ''/** Runs.\<newline> * @param x n\<newline> * @return nothing\<newline> */\<newline>def run(x: Int): Unit = ()''
     = Inr [(Some ''Int): Unit'', [[]], [])]
   \<and> return_report ''/** Runs.\<newline> * @param x n\<newline> */\<newline>def run(x: Int) = ()''
     = Inr [(Some ''Int)'', [], [''Missing @return for non-Unit return type''])]
   \<and> return_report ''/** Runs.\<newline> * @return nothing\<newline> */\<newline>def run(): Unit = ()''
     = Inr [(Some ''Unit'', [[]], [''@return present but return type is Unit''])]
   \<and> return_report ''/** Runs. */\<newline>def run(): Unit = ()'' = Inr [(Some ''Unit'', [], [])]
   \<and> return_report ''/** Runs. */\<newline>def run = ()'' = Inr [(None, [], [])]"
  by code_simp

subsection \<open>The report does not depend on fix\<close>

lemma analyze_block_results:
  assumes "c_results s1 = c_results s2"
  shows "map_sum id c_results (analyze_block text True m s1)
           = map_sum id c_results (analyze_block text False m s2)"
proof -
  obtain chunk line where g: "get_declaration_after text (m_end m) = (chunk, line)"
    by (cases "get_declaration_after text (m_end m)")
  show ?thesis
    using assms
    by (cases "parse_declaration chunk")
       (simp_all add: analyze_block_def bind_err_def Let_def g)
qed

lemma fold_blocks_results:
  "c_results s1 = c_results s2 \<Longrightarrow>
     map_sum id c_results (fold_err (analyze_block text True) ms s1)
       = map_sum id c_results (fold_err (analyze_block text False) ms s2)"
proof (induction ms arbitrary: s1 s2)
  case Nil
  then show ?case by simp
next
  case (Cons m ms)
  show ?case
  proof (cases "analyze_block text True m s1")
    case (Inl e)
    with analyze_block_results [OF Cons.prems, of "text" m]
    have "analyze_block text False m s2 = Inl e"
      by (cases "analyze_block text False m s2") simp_all
    with Inl show ?thesis by (simp add: bind_err_def)
  next
    case (Inr t1)
    with analyze_block_results [OF Cons.prems, of "text" m]
    obtain t2 where t2: "analyze_block text False m s2 = Inr t2" "c_results t1 = c_results t2"
      by (cases "analyze_block text False m s2") simp_all
    with Inr Cons.IH [of t1 t2] show ?thesis by (simp add: bind_err_def)
  qed
qed

text \<open>
  Claim C10. The results of the report of \<^verbatim>\<open>analyze_file\<close> (line, declaration, tags,
  issues and excerpt of every block, or the exception that ends the analysis) are the
  same with \<^verbatim>\<open>fix\<close> set and not set.
\<close>

theorem report_independent_of_fix:
  "map_sum id fst (analyze_file_checker text True)
     = map_sum id fst (analyze_file_checker text False)"
proof -
  have "map_sum id c_results (scan_blocks text True) = map_sum id c_results (scan_blocks text False)"
    unfolding scan_blocks_def by (rule fold_blocks_results) simp
  then show ?thesis
    by (cases "scan_blocks text True"; cases "scan_blocks text False")
       (simp_all add: analyze_file_checker_def bind_err_def)
qed

subsection \<open>The exit code after a fix\<close>

text \<open>
  Claim C9. The checker run with \<^verbatim>\<open>--fix\<close> on a folder whose one file is
  \<^verbatim>\<open>/** D */\<close> before \<^verbatim>\<open>def f(x: Int) = 1\<close>: the file is rewritten with the two missing
  tags, the rewritten file has no issue left, and the exit code is 1. Without the folder
  the exit code is 2; the indentation fixer exits with 1 on a misaligned block without
  \<^verbatim>\<open>--fix\<close> and with 0 with it.
\<close>

theorem checker_exit_code_after_fix:
  "checker_main (Some [''/** D */'' @ [CHR 0x0A] @ ''def f(x: Int) = 1'']) True = 1
   \<and> map_sum id snd (analyze_file_checker (''/** D */'' @ [CHR 0x0A] @ ''def f(x: Int) = 1'') True)
       = Inr (''/**'' @ [CHR 0x0A] @ '' * D'' @ [CHR 0x0A] @ '' * @param x TODO FILL IN PARAM''
              @ [CHR 0x0A] @ '' * @return TODO FILL IN RETURN'' @ [CHR 0x0A] @ '' */''
              @ [CHR 0x0A] @ ''def f(x: Int) = 1'')
   \<and> checker_main (Some [''/**'' @ [CHR 0x0A] @ '' * D'' @ [CHR 0x0A] @ '' * @param x TODO FILL IN PARAM''
              @ [CHR 0x0A] @ '' * @return TODO FILL IN RETURN'' @ [CHR 0x0A] @ '' */''
              @ [CHR 0x0A] @ ''def f(x: Int) = 1'']) False = 0
   \<and> checker_main None True = 2
   \<and> fixer_main None True False = 2
   \<and> fixer_main (Some [''/**'' @ [CHR 0x0A] @ '' * a'' @ [CHR 0x0A] @ '' */'']) False False = 1
   \<and> fixer_main (Some [''/**'' @ [CHR 0x0A] @ '' * a'' @ [CHR 0x0A] @ '' */'']) True False = 0"
  by code_simp

section \<open>Properties of the indentation fixer\<close>

text \<open>
  Claim C3. The block \<^verbatim>\<open>/**\n * a\n */\<close> is rewritten by a first run, with either
  setting of \<^verbatim>\<open>normalize_all\<close>, and the text of the first run is rewritten again by a
  second run: the second run reports a change and returns another text.
\<close>

theorem normalization_not_idempotent:
  "analyze_and_fix_text (''/**'' @ [CHR 0x0A] @ '' * a'' @ [CHR 0x0A] @ '' */'') False
     = (''/**'' @ [CHR 0x0A] @ '' *'' @ [CHR 0x0A] @ '' * a'' @ [CHR 0x0A] @ '' * '' @ [CHR 0x0A] @ '' */'',
        [(1, ''/**'', ''/**'')])
   \<and> analyze_and_fix_text (''/**'' @ [CHR 0x0A] @ '' * a'' @ [CHR 0x0A] @ '' */'') True
     = (''/**'' @ [CHR 0x0A] @ '' *'' @ [CHR 0x0A] @ '' * a'' @ [CHR 0x0A] @ '' * '' @ [CHR 0x0A] @ '' */'',
        [(1, ''/**'', ''/**'')])
   \<and> analyze_and_fix_text
        (''/**'' @ [CHR 0x0A] @ '' *'' @ [CHR 0x0A] @ '' * a'' @ [CHR 0x0A] @ '' * '' @ [CHR 0x0A] @ '' */'') False
     = (''/**'' @ [CHR 0x0A] @ '' *'' @ [CHR 0x0A] @ '' *'' @ [CHR 0x0A] @ '' * a'' @ [CHR 0x0A]
          @ '' * '' @ [CHR 0x0A] @ '' * '' @ [CHR 0x0A] @ '' */'',
        [(1, ''/**'', ''/**'')])
   \<and> analyze_and_fix_text
        (''/**'' @ [CHR 0x0A] @ '' *'' @ [CHR 0x0A] @ '' * a'' @ [CHR 0x0A] @ '' * '' @ [CHR 0x0A] @ '' */'') True
     = (''/**'' @ [CHR 0x0A] @ '' *'' @ [CHR 0x0A] @ '' *'' @ [CHR 0x0A] @ '' * a'' @ [CHR 0x0A]
          @ '' * '' @ [CHR 0x0A] @ '' * '' @ [CHR 0x0A] @ '' */'',
        [(1, ''/**'', ''/**'')])"
  by code_simp

section \<open>Properties of the matcher\<close>

text \<open>
  What a match can do: it moves the cursor forward over a part of the remaining text,
  and it keeps the groups it has and adds groups. The groups \<open>must r\<close> take part in
  every match of \<open>r\<close>.
\<close>

definition ext :: "cursor \<Rightarrow> caps \<Rightarrow> cursor \<Rightarrow> caps \<Rightarrow> bool" where
  "ext cu ca cu' ca' =
     ((\<exists>pre. crest cu = pre @ crest cu' \<and> cpos cu' = cpos cu + length pre)
      \<and> fst ` set ca \<subseteq> fst ` set ca')"

fun must :: "re \<Rightarrow> nat set" where
  "must (Seq a b) = must a \<union> must b"
| "must (Alt a b) = must a \<inter> must b"
| "must (Grp n a) = insert n (must a)"
| "must r = {}"

lemma ext_refl: "ext cu ca cu ca"
  by (simp add: ext_def)

lemma ext_trans:
  assumes "ext cu ca cu1 ca1" and "ext cu1 ca1 cu2 ca2"
  shows "ext cu ca cu2 ca2"
proof -
  from assms(1) obtain p1 where p1: "crest cu = p1 @ crest cu1" "cpos cu1 = cpos cu + length p1"
    and g1: "fst ` set ca \<subseteq> fst ` set ca1"
    unfolding ext_def by blast
  from assms(2) obtain p2 where p2: "crest cu1 = p2 @ crest cu2" "cpos cu2 = cpos cu1 + length p2"
    and g2: "fst ` set ca1 \<subseteq> fst ` set ca2"
    unfolding ext_def by blast
  have "crest cu = (p1 @ p2) @ crest cu2 \<and> cpos cu2 = cpos cu + length (p1 @ p2)"
    using p1 p2 by simp
  then have "\<exists>pre. crest cu = pre @ crest cu2 \<and> cpos cu2 = cpos cu + length pre"
    by (rule exI)
  with g1 g2 show ?thesis
    unfolding ext_def by blast
qed

lemma cont_here:
  "k cu ca = Some x \<Longrightarrow> \<exists>cu' ca'. k cu' ca' = Some x \<and> ext cu ca cu' ca'"
  using ext_refl by blast

lemma rstar_sound:
  assumes body: "\<And>cu ca k x. body cu ca k = Some x \<Longrightarrow> \<exists>cu' ca'. k cu' ca' = Some x \<and> ext cu ca cu' ca'"
  shows "rstar g n body cu ca k = Some x \<Longrightarrow> \<exists>cu' ca'. k cu' ca' = Some x \<and> ext cu ca cu' ca'"
proof (induction n arbitrary: cu ca x)
  case 0
  then have "k cu ca = Some x" by simp
  then show ?case by (rule cont_here)
next
  case (Suc n)
  let ?k = "\<lambda>cu' ca'. if cpos cu < cpos cu' then rstar g n body cu' ca' k else None"
  have "k cu ca = Some x \<or> body cu ca ?k = Some x"
  proof (cases g)
    case True
    then have g: "g = True" by simp
    show ?thesis
      using Suc.prems unfolding g
      by (cases "body cu ca (\<lambda>cu' ca'. if cpos cu < cpos cu' then rstar True n body cu' ca' k
                                      else None)")
         simp_all
  next
    case False
    then have g: "g = False" by simp
    show ?thesis
      using Suc.prems unfolding g
      by (cases "k cu ca") simp_all
  qed
  then show ?case
  proof
    assume "k cu ca = Some x"
    then show ?thesis by (rule cont_here)
  next
    assume "body cu ca ?k = Some x"
    from body [OF this] obtain cu1 ca1 where 1: "?k cu1 ca1 = Some x" "ext cu ca cu1 ca1"
      by blast
    from 1(1) have "rstar g n body cu1 ca1 k = Some x"
      by (cases "cpos cu < cpos cu1") simp_all
    from Suc.IH [OF this] obtain cu2 ca2 where "k cu2 ca2 = Some x" "ext cu1 ca1 cu2 ca2"
      by blast
    with 1(2) show ?thesis by (blast intro: ext_trans)
  qed
qed

lemma rmatch_sound:
  "rmatch r cu ca k = Some x \<Longrightarrow>
     \<exists>cu' ca'. k cu' ca' = Some x \<and> ext cu ca cu' ca' \<and> must r \<subseteq> fst ` set ca'"
proof (induction r arbitrary: cu ca k x)
  case (Chr p)
  then obtain c cs where c: "crest cu = c # cs" "k (Some c, Suc (cpos cu), cs) ca = Some x"
    by (cases "crest cu") (simp_all split: if_splits)
  have "crest cu = [c] @ crest (Some c, Suc (cpos cu), cs)
        \<and> cpos (Some c, Suc (cpos cu), cs) = cpos cu + length [c]"
    using c(1) by (simp add: crest_def cpos_def)
  then have "\<exists>pre. crest cu = pre @ crest (Some c, Suc (cpos cu), cs)
        \<and> cpos (Some c, Suc (cpos cu), cs) = cpos cu + length pre"
    by (rule exI)
  then have "ext cu ca (Some c, Suc (cpos cu), cs) ca"
    unfolding ext_def by simp
  with c(2) show ?case by (intro exI [of _ "(Some c, Suc (cpos cu), cs)"] exI [of _ ca]) simp
next
  case Eps
  then have "k cu ca = Some x" by simp
  then show ?case by (intro exI [of _ cu] exI [of _ ca]) (simp add: ext_refl)
next
  case (Seq a b)
  from Seq.prems have "rmatch a cu ca (\<lambda>cu' ca'. rmatch b cu' ca' k) = Some x" by simp
  from Seq.IH(1) [OF this] obtain cu1 ca1 where
    1: "rmatch b cu1 ca1 k = Some x" "ext cu ca cu1 ca1" "must a \<subseteq> fst ` set ca1"
    by blast
  from Seq.IH(2) [OF 1(1)] obtain cu2 ca2 where
    2: "k cu2 ca2 = Some x" "ext cu1 ca1 cu2 ca2" "must b \<subseteq> fst ` set ca2"
    by blast
  from 1(3) 2(2) have "must a \<subseteq> fst ` set ca2"
    unfolding ext_def by blast
  moreover from 1(2) 2(2) have "ext cu ca cu2 ca2" by (rule ext_trans)
  ultimately show ?case
    using 2 by (intro exI [of _ cu2] exI [of _ ca2]) simp
next
  case (Alt a b)
  from Alt.prems have "rmatch a cu ca k = Some x \<or> rmatch b cu ca k = Some x"
    by (cases "rmatch a cu ca k") simp_all
  then show ?case
  proof
    assume "rmatch a cu ca k = Some x"
    from Alt.IH(1) [OF this] show ?thesis by (simp only: must.simps) blast
  next
    assume "rmatch b cu ca k = Some x"
    from Alt.IH(2) [OF this] show ?thesis by (simp only: must.simps) blast
  qed
next
  case (Star g a)
  have body: "\<And>cu ca k x. (\<lambda>cu' ca' k'. rmatch a cu' ca' k') cu ca k = Some x
                \<Longrightarrow> \<exists>cu' ca'. k cu' ca' = Some x \<and> ext cu ca cu' ca'"
    using Star.IH by blast
  from Star.prems
  have "rstar g (Suc (length (crest cu))) (\<lambda>cu' ca' k'. rmatch a cu' ca' k') cu ca k = Some x"
    by simp
  from rstar_sound [of "\<lambda>cu' ca' k'. rmatch a cu' ca' k'", OF body this]
  show ?case by simp
next
  case (Grp n a)
  from Grp.prems
  have "rmatch a cu ca (\<lambda>cu' ca'. k cu' ((n, cpos cu, cpos cu') # ca')) = Some x" by simp
  from Grp.IH [OF this] obtain cu1 ca1 where
    1: "k cu1 ((n, cpos cu, cpos cu1) # ca1) = Some x" "ext cu ca cu1 ca1"
       "must a \<subseteq> fst ` set ca1"
    by blast
  from 1(2) have "ext cu ca cu1 ((n, cpos cu, cpos cu1) # ca1)"
    unfolding ext_def by auto
  with 1 show ?case
    by (intro exI [of _ cu1] exI [of _ "(n, cpos cu, cpos cu1) # ca1"]) auto
next
  case Bos
  then have "k cu ca = Some x" by (simp split: if_splits)
  then show ?case by (intro exI [of _ cu] exI [of _ ca]) (simp add: ext_refl)
next
  case Bol
  then have "k cu ca = Some x" by (simp split: if_splits)
  then show ?case by (intro exI [of _ cu] exI [of _ ca]) (simp add: ext_refl)
next
  case Eos
  then have "k cu ca = Some x" by (simp split: if_splits)
  then show ?case by (intro exI [of _ cu] exI [of _ ca]) (simp add: ext_refl)
next
  case Wordb
  then have "k cu ca = Some x" by (simp split: if_splits)
  then show ?case by (intro exI [of _ cu] exI [of _ ca]) (simp add: ext_refl)
qed

text \<open>A match found from offset \<open>i\<close> of a text lies in the text, from \<open>i\<close> on.\<close>

lemma rmatch_final:
  assumes "rmatch r (pv, i, s) [] (\<lambda>cu ca. Some (cu, ca)) = Some (cu, ca)"
  shows "i \<le> cpos cu \<and> cpos cu + length (crest cu) = i + length s
         \<and> crest cu = drop (cpos cu - i) s \<and> must r \<subseteq> fst ` set ca"
proof -
  from rmatch_sound [OF assms] have e: "ext (pv, i, s) [] cu ca" and g: "must r \<subseteq> fst ` set ca"
    by simp_all
  from e obtain pre where "s = pre @ crest cu" "cpos cu = i + length pre"
    unfolding ext_def by (auto simp: cpos_def crest_def)
  with g show ?thesis by simp
qed

lemma search_from_sound:
  "search_from r pv i s = Some m \<Longrightarrow>
     i \<le> m_start m \<and> m_start m \<le> m_end m
     \<and> m_end m + length (crest (fst (snd m))) = i + length s
     \<and> crest (fst (snd m)) = drop (m_end m - i) s
     \<and> must r \<subseteq> fst ` set (snd (snd m))"
proof (induction s arbitrary: pv i)
  case Nil
  then obtain cu ca where "rmatch r (pv, i, []) [] (\<lambda>cu ca. Some (cu, ca)) = Some (cu, ca)"
    "m = (i, cu, ca)"
    by (auto split: option.splits)
  with rmatch_final [OF this(1)] show ?case
    by (simp add: m_start_def m_end_def)
next
  case (Cons c cs)
  show ?case
  proof (cases "rmatch r (pv, i, c # cs) [] (\<lambda>cu ca. Some (cu, ca))")
    case None
    with Cons.prems have "search_from r (Some c) (Suc i) cs = Some m" by simp
    from Cons.IH [OF this] have ih: "Suc i \<le> m_start m" "m_start m \<le> m_end m"
      "m_end m + length (crest (fst (snd m))) = Suc i + length cs"
      "crest (fst (snd m)) = drop (m_end m - Suc i) cs"
      "must r \<subseteq> fst ` set (snd (snd m))"
      by simp_all
    from ih(1,2) have "m_end m - i = Suc (m_end m - Suc i)" by simp
    with ih show ?thesis by simp
  next
    case (Some res)
    obtain cu ca where res: "res = (cu, ca)" by (cases res)
    with Some Cons.prems have "m = (i, cu, ca)" by simp
    with rmatch_final [OF Some [unfolded res]] show ?thesis
      by (simp add: m_start_def m_end_def)
  qed
qed

lemma re_search_group:
  assumes "re_search r s = Some m" and "n \<in> must r"
  shows "\<exists>t. m_group s m n = Some t"
proof -
  from search_from_sound [OF assms(1) [unfolded re_search_def]] assms(2)
  have "n \<in> fst ` set (snd (snd m))" by auto
  then have "map_of (snd (snd m)) n \<noteq> None"
    by (simp add: map_of_eq_None_iff)
  then show ?thesis
    by (auto simp: m_group_def split: option.splits)
qed

subsection \<open>parse\_declaration never raises\<close>

lemma bind_err_ok:
  assumes "\<exists>a. x = Inr a" and "\<And>a. \<exists>b. f a = Inr b"
  shows "\<exists>b. bind_err x f = Inr b"
  using assms by (auto simp: bind_err_def)

lemma bind_err_Inr: "bind_err (Inr a) f = f a"
  by (simp add: bind_err_def)

lemma map_err_ok:
  assumes "\<And>x. \<exists>y. f x = Inr y"
  shows "\<exists>ys. map_err f xs = Inr ys"
proof (induction xs)
  case Nil
  then show ?case by simp
next
  case (Cons x xs)
  from assms obtain y where "f x = Inr y" by blast
  with Cons show ?case by (auto simp: bind_err_def)
qed

lemma split_on_acc_nonempty: "split_on_acc sep cur s \<noteq> []"
  by (induction s arbitrary: cur) simp_all

lemma index0_split_on: "\<exists>x. index0 (split_on c s) = Inr x"
  using split_on_acc_nonempty [of c "[]" s]
  by (cases "split_on_acc c [] s") (simp_all add: index0_def split_on_def)

lemma tparam_name_ok: "\<exists>x. tparam_name tp = Inr x"
  unfolding tparam_name_def
  by (intro bind_err_ok index0_split_on) simp

lemma split_ws_acc_nonempty: "cur \<noteq> [] \<Longrightarrow> split_ws_acc cur s \<noteq> []"
  by (induction s arbitrary: cur) simp_all

lemma rstrip_prefix: "\<exists>sp. t = rstrip t @ sp"
proof -
  have "rev (takeWhile isspace (rev t) @ dropWhile isspace (rev t)) = t"
    by (simp only: takeWhile_dropWhile_id rev_rev_ident)
  then have "rev (dropWhile isspace (rev t)) @ rev (takeWhile isspace (rev t)) = t"
    by (simp only: rev_append)
  then have "t = rstrip t @ rev (takeWhile isspace (rev t))"
    unfolding rstrip_def by (rule sym)
  then show ?thesis ..
qed

lemma strip_head:
  assumes "strip s = c # cs"
  shows "\<not> isspace c"
proof -
  obtain sp where sp: "lstrip s = strip s @ sp"
    using rstrip_prefix [of "lstrip s"] by (auto simp: strip_def)
  with assms have "dropWhile isspace s = c # cs @ sp" by (simp add: lstrip_def)
  then show ?thesis by (rule dropWhile_eq_Cons_conv [THEN iffD1, THEN conjunct2])
qed

lemma index0_split_ws_strip:
  assumes "strip p \<noteq> []"
  shows "\<exists>x. index0 (split_ws (strip p)) = Inr x"
proof -
  from assms obtain c cs where c: "strip p = c # cs" by (cases "strip p") auto
  then have "\<not> isspace c" by (rule strip_head)
  with c have "split_ws (strip p) = split_ws_acc [c] cs" by (simp add: split_ws_def)
  with split_ws_acc_nonempty [of "[c]" cs] show ?thesis
    by (cases "split_ws_acc [c] cs") (simp_all add: index0_def)
qed

lemma param_names_of_part_ok: "\<exists>ns. param_names_of_part p = Inr ns"
proof (cases "strip p = []")
  case True
  then show ?thesis by (simp add: param_names_of_part_def)
next
  case False
  from index0_split_ws_strip [OF False] obtain tok where "index0 (split_ws (strip p)) = Inr tok"
    by blast
  with False show ?thesis
    by (simp add: param_names_of_part_def bind_err_def Let_def split: option.splits)
qed

lemma extract_param_names_ok: "\<exists>ns. extract_param_names_from_parens parens = Inr ns"
  unfolding extract_param_names_from_parens_def Let_def
  by (simp, intro impI bind_err_ok map_err_ok param_names_of_part_ok) simp

lemma splitlines_acc_nonempty: "cur \<noteq> [] \<or> s \<noteq> [] \<Longrightarrow> splitlines_acc cur s \<noteq> []"
  by (induction cur s rule: splitlines_acc.induct) auto

lemma first_line_of_ok: "\<exists>l. first_line_of chunk = Inr l"
proof (cases "strip chunk = []")
  case True
  then show ?thesis by (simp add: first_line_of_def)
next
  case False
  with splitlines_acc_nonempty [of "[]" "strip chunk"] show ?thesis
    by (cases "splitlines_acc [] (strip chunk)")
       (simp_all add: first_line_of_def index0_def splitlines_def)
qed

lemma index0_re_split: "\<exists>x. index0 (re_split r s) = Inr x"
proof -
  have "split_spans s p ms \<noteq> []" for p ms
    by (cases ms) auto
  then show ?thesis
    by (cases "re_split r s") (auto simp: index0_def re_split_def)
qed

lemma must_RETURN_RE: "1 \<in> must RETURN_RE"
  by (simp add: RETURN_RE_def seqs_def plus_def ch_def)

lemma find_return_ok: "\<exists>d. find_return chunk mo res = Inr d"
proof (cases "re_search RETURN_RE chunk")
  case None
  then show ?thesis by (simp add: find_return_def)
next
  case (Some ret_match)
  from re_search_group [OF Some must_RETURN_RE] obtain g where
    g: "m_group chunk ret_match 1 = Some g" by blast
  obtain r where "index0 (re_split RETURN_END_RE (strip g)) = Inr r"
    using index0_re_split by blast
  with Some g show ?thesis
    by (simp add: find_return_def bind_err_def)
qed

lemma fill_signature_ok: "\<exists>d. fill_signature chunk mo res = Inr d"
proof (cases mo)
  case None
  then show ?thesis by (simp add: fill_signature_def)
next
  case (Some m)
  have tps: "\<exists>ts. (if tps \<noteq> [] then map_err tparam_name (split_on CHR '','' tps)
                    else Inr (d_tparams r)) = Inr ts" for tps r
    using map_err_ok [of tparam_name, OF tparam_name_ok] by auto
  show ?thesis
    unfolding fill_signature_def Some option.case Let_def
    by (intro bind_err_ok tps extract_param_names_ok) simp
qed

lemma parse_declaration_ok: "\<exists>d. parse_declaration chunk = Inr d"
proof -
  obtain fl where fl: "first_line_of chunk = Inr fl"
    using first_line_of_ok by blast
  show ?thesis
  proof (cases "kind_of_chunk fl chunk")
    case None
    with fl show ?thesis by (simp add: parse_declaration_def bind_err_def)
  next
    case (Some kind)
    have sig: "\<exists>d. bind_err (fill_signature chunk m res) (find_return chunk m) = Inr d" for m res
      by (intro bind_err_ok fill_signature_ok find_return_ok)
    from fl Some show ?thesis
      by (simp add: parse_declaration_def bind_err_Inr Let_def sig fill_signature_ok
          split: option.splits)
  qed
qed

text \<open>
  Claim C8. \<^verbatim>\<open>parse_declaration\<close> returns a declaration for every chunk, the empty one
  too: none of its reads raises. When the pattern of the declaration keywords matches
  neither the first line nor the chunk, the declaration is the unknown one: kind
  \<^verbatim>\<open>unknown\<close>, empty name, no type parameters, no parameters, no return type.
  \<^verbatim>\<open>extract_param_names_from_parens\<close> returns a list of names for every text.
\<close>

theorem parse_declaration_never_raises:
  "(\<exists>d. parse_declaration chunk = Inr d)
   \<and> (first_line_of chunk = Inr first_line \<and> kind_of_chunk first_line chunk = None
        \<longrightarrow> parse_declaration chunk
             = Inr \<lparr>d_kind = ''unknown'', d_name = [], d_tparams = [], d_params = [],
                    d_return = None\<rparr>)
   \<and> (\<exists>names. extract_param_names_from_parens parens = Inr names)"
proof (intro conjI impI)
  show "\<exists>d. parse_declaration chunk = Inr d"
    by (rule parse_declaration_ok)
next
  assume "first_line_of chunk = Inr first_line \<and> kind_of_chunk first_line chunk = None"
  then show "parse_declaration chunk
       = Inr \<lparr>d_kind = ''unknown'', d_name = [], d_tparams = [], d_params = [], d_return = None\<rparr>"
    by (simp add: parse_declaration_def bind_err_def unknown_decl_def)
next
  show "\<exists>names. extract_param_names_from_parens parens = Inr names"
    by (rule extract_param_names_ok)
qed

text \<open>The empty chunk and a chunk with no declaration keyword.\<close>

theorem parse_declaration_never_raises_witness:
  "first_line_of [] = Inr [] \<and> kind_of_chunk [] [] = None
   \<and> parse_declaration []
       = Inr \<lparr>d_kind = ''unknown'', d_name = [], d_tparams = [], d_params = [], d_return = None\<rparr>
   \<and> first_line_of ''x + 1)'' = Inr ''x + 1)'' \<and> kind_of_chunk ''x + 1)'' ''x + 1)'' = None
   \<and> parse_declaration ''x + 1)''
       = Inr \<lparr>d_kind = ''unknown'', d_name = [], d_tparams = [], d_params = [], d_return = None\<rparr>"
proof -
  have a: "first_line_of [] = Inr [] \<and> kind_of_chunk [] [] = None"
    by code_simp
  have b: "first_line_of ''x + 1)'' = Inr ''x + 1)'' \<and> kind_of_chunk ''x + 1)'' ''x + 1)'' = None"
    by code_simp
  from parse_declaration_never_raises [of "[]" "[]"] a
  have c: "parse_declaration []
       = Inr \<lparr>d_kind = ''unknown'', d_name = [], d_tparams = [], d_params = [], d_return = None\<rparr>"
    by blast
  from parse_declaration_never_raises [of "''x + 1)''" "''x + 1)''"] b
  have d: "parse_declaration ''x + 1)''
       = Inr \<lparr>d_kind = ''unknown'', d_name = [], d_tparams = [], d_params = [], d_return = None\<rparr>"
    by blast
  from a b c d show ?thesis by blast
qed

section \<open>Splicing\<close>

subsection \<open>The spans of the blocks\<close>

text \<open>
  Spans in source order from offset \<open>p\<close> on, none overlapping another, all inside a
  text of length \<open>n\<close>.
\<close>

fun spans_ok :: "nat \<Rightarrow> nat \<Rightarrow> (nat \<times> nat) list \<Rightarrow> bool" where
  "spans_ok p n [] = (p \<le> n)"
| "spans_ok p n ((a, b) # xs) = (p \<le> a \<and> a \<le> b \<and> spans_ok b n xs)"

definition span_of :: "rmatch_result \<Rightarrow> nat \<times> nat" where
  "span_of m = (m_start m, m_end m)"

lemma spans_ok_le: "spans_ok p n xs \<Longrightarrow> p \<le> n"
proof (induction xs arbitrary: p)
  case Nil
  then show ?case by simp
next
  case (Cons x xs)
  obtain a b where x: "x = (a, b)" by (cases x)
  with Cons.prems have "p \<le> a" "a \<le> b" "spans_ok b n xs" by simp_all
  with Cons.IH [of b] show ?case by simp
qed

lemma finditer_from_spans:
  "spans_ok i (i + length s) (map span_of (finditer_from r pv i s))"
proof (induction r pv i s rule: finditer_from.induct)
  case (1 r pv i s)
  note finditer_from.simps [simp del]
  show ?case
  proof (cases "search_from r pv i s")
    case None
    then show ?thesis by (subst finditer_from.simps) simp
  next
    case (Some m)
    note snd = search_from_sound [OF Some]
    from snd have b: "i \<le> m_start m" "m_start m \<le> m_end m" "m_end m \<le> i + length s"
      "m_end m + length (crest (fst (snd m))) = i + length s"
      by simp_all
    show ?thesis
    proof (cases "length (crest (fst (snd m))) < length s")
      case True
      from "1.IH" [OF Some True]
      have "spans_ok (m_end m) (m_end m + length (crest (fst (snd m))))
              (map span_of (finditer_from r (fst (fst (snd m))) (m_end m) (crest (fst (snd m)))))" .
      with b(4) have "spans_ok (m_end m) (i + length s)
              (map span_of (finditer_from r (fst (fst (snd m))) (m_end m) (crest (fst (snd m)))))"
        by simp
      with Some True b show ?thesis
        by (subst finditer_from.simps) (simp add: span_of_def)
    next
      case False
      with Some b show ?thesis
        by (subst finditer_from.simps) (simp add: span_of_def)
    qed
  qed
qed

lemma finditer_spans: "spans_ok 0 (length s) (map span_of (finditer r s))"
  using finditer_from_spans [of 0 s r None] by (simp add: finditer_def)

subsection \<open>The rewrite plan\<close>

text \<open>
  The plan of the specification: the spans of the original text that are replaced, in
  source order, each with its replacement. Applying it copies the text between the
  spans and puts each replacement in the place of its span.
\<close>

type_synonym plan = "(nat \<times> nat \<times> string) list"

fun apply_plan_from :: "string \<Rightarrow> nat \<Rightarrow> plan \<Rightarrow> string" where
  "apply_plan_from text p [] = drop p text"
| "apply_plan_from text p ((a, b, r) # es) = slice text p a @ r @ apply_plan_from text b es"

definition apply_plan :: "string \<Rightarrow> plan \<Rightarrow> string" where
  "apply_plan text es = apply_plan_from text 0 es"

text \<open>The cumulative offset of a plan: the sum of replacement length minus span length.\<close>

definition shift :: "plan \<Rightarrow> int" where
  "shift es = (\<Sum>(a, b, r) \<leftarrow> es. int (length r) - (int b - int a))"

text \<open>What the loops of both tools do with the replacements of a plan, one after another.\<close>

fun run_edits :: "string \<Rightarrow> int \<Rightarrow> plan \<Rightarrow> string \<times> int" where
  "run_edits new_text offset [] = (new_text, offset)"
| "run_edits new_text offset ((a, b, r) # es) =
     run_edits (splice new_text offset a b r) (offset + int (length r) - (int b - int a)) es"

lemma run_edits_plan:
  assumes "spans_ok p (length text) (map (\<lambda>(a, b, r). (a, b)) es)"
    and "new_text = pre @ drop p text"
    and "int (length pre) = int p + offset"
  shows "run_edits new_text offset es = (pre @ apply_plan_from text p es, offset + shift es)"
  using assms
proof (induction es arbitrary: p new_text pre offset)
  case Nil
  then show ?case by (simp add: shift_def)
next
  case (Cons e es)
  obtain a b r where e: "e = (a, b, r)" by (cases e)
  from Cons.prems(1) e have ok: "p \<le> a" "a \<le> b"
    "spans_ok b (length text) (map (\<lambda>(a, b, r). (a, b)) es)"
    by simp_all
  from ok(3) have bl: "b \<le> length text" by (rule spans_ok_le)
  from Cons.prems(3) have off: "0 \<le> int a + offset" "0 \<le> int b + offset"
    "nat (int a + offset) = length pre + (a - p)" "nat (int b + offset) = length pre + (b - p)"
    using ok by simp_all
  have up: "py_upto new_text (int a + offset) = pre @ slice text p a"
    using off(1,3) Cons.prems(2) by (simp add: py_upto_def slice_def)
  have "drop (b - p) (drop p text) = drop b text"
    using ok by simp
  moreover have "length pre + (b - p) - length pre = b - p" by simp
  ultimately have fr: "py_from new_text (int b + offset) = drop b text"
    using off(2,4) Cons.prems(2) by (simp add: py_from_def)
  let ?pre = "pre @ slice text p a @ r"
  have nt: "splice new_text offset a b r = ?pre @ drop b text"
    by (simp add: splice_def up fr)
  have "length (slice text p a) = a - p"
    using ok bl by (simp add: slice_def)
  then have len: "int (length ?pre) = int b + (offset + int (length r) - (int b - int a))"
    using Cons.prems(3) ok by simp
  from Cons.IH [OF ok(3) nt len]
  show ?case
    by (simp add: e shift_def)
qed

text \<open>Where a replacement stands in the result: its span's start, shifted by the plan before it.\<close>

lemma apply_plan_from_position:
  assumes "spans_ok p (length text) (map (\<lambda>(a, b, r). (a, b)) (es1 @ (a, b, r) # es2))"
  shows "\<exists>pre. apply_plan_from text p (es1 @ (a, b, r) # es2) = pre @ r @ apply_plan_from text b es2
           \<and> int (length pre) = int a - int p + shift es1"
  using assms
proof (induction es1 arbitrary: p)
  case Nil
  then have "p \<le> a" "a \<le> b" "spans_ok b (length text) (map (\<lambda>(a, b, r). (a, b)) es2)"
    by simp_all
  moreover from this(3) have "b \<le> length text" by (rule spans_ok_le)
  ultimately have "length (slice text p a) = a - p" "p \<le> a"
    by (simp_all add: slice_def)
  then show ?case
    by (intro exI [of _ "slice text p a"]) (simp add: shift_def)
next
  case (Cons e es1)
  obtain a' b' r' where e: "e = (a', b', r')" by (cases e)
  from Cons.prems e have ok: "p \<le> a'" "a' \<le> b'"
    "spans_ok b' (length text) (map (\<lambda>(a, b, r). (a, b)) (es1 @ (a, b, r) # es2))"
    by simp_all
  from ok(3) have "b' \<le> length text" by (rule spans_ok_le)
  with ok have l: "length (slice text p a') = a' - p" by (simp add: slice_def)
  from Cons.IH [OF ok(3)] obtain pre where
    pre: "apply_plan_from text b' (es1 @ (a, b, r) # es2) = pre @ r @ apply_plan_from text b es2"
      "int (length pre) = int a - int b' + shift es1"
    by blast
  show ?case
    using pre l ok
    by (intro exI [of _ "slice text p a' @ r' @ pre"]) (simp add: e shift_def)
qed

subsection \<open>The plans of the two tools\<close>

text \<open>
  The replacement the indentation fixer makes for a block, if it makes one, and the
  replacement the checker makes with \<^verbatim>\<open>fix\<close> set: the span of the block in the original
  text and the new block.
\<close>

definition fixer_edit :: "string \<Rightarrow> bool \<Rightarrow> rmatch_result \<Rightarrow> (nat \<times> nat \<times> string) option" where
  "fixer_edit text normalize_all m =
     (let start = m_start m;
          stop = m_end m;
          leading_ws = leading_ws_of text start;
          inner_lines = splitlines (group_text text m 1);
          original_block = slice text start stop
      in if \<not> contains original_block ''\<newline>'' \<and> \<not> normalize_all then None
         else if \<not> need_rewrite normalize_all leading_ws inner_lines then None
         else if new_block_of leading_ws inner_lines \<noteq> original_block
           then Some (start, stop, new_block_of leading_ws inner_lines)
         else None)"

definition fixer_plan :: "string \<Rightarrow> bool \<Rightarrow> plan" where
  "fixer_plan text normalize_all =
     List.map_filter (fixer_edit text normalize_all) (finditer SCALADOC_RE text)"

definition checker_edit :: "string \<Rightarrow> rmatch_result \<Rightarrow> (nat \<times> nat \<times> string) option" where
  "checker_edit text m =
     (let block = group_text text m 1 in
        case parse_declaration (fst (get_declaration_after text (m_end m))) of
          Inl e \<Rightarrow> None
        | Inr decl \<Rightarrow>
            if insert_lines_of (extract_tags block) decl \<noteq> []
            then Some (m_start m, m_end m,
                       new_full_of text (m_start m) block
                         (insert_lines_of (extract_tags block) decl))
            else None)"

definition checker_plan :: "string \<Rightarrow> plan" where
  "checker_plan text = List.map_filter (checker_edit text) (finditer SCALADOC_RE text)"

lemma spans_ok_from: "spans_ok b n xs \<Longrightarrow> p \<le> b \<Longrightarrow> spans_ok p n xs"
  by (cases xs) auto

lemma map_filter_spans:
  assumes "\<And>m a b r. f m = Some (a, b, r) \<Longrightarrow> (a, b) = span_of m"
  shows "spans_ok p n (map span_of ms)
           \<Longrightarrow> spans_ok p n (map (\<lambda>(a, b, r). (a, b)) (List.map_filter f ms))"
proof (induction ms arbitrary: p)
  case Nil
  then show ?case by simp
next
  case (Cons m ms)
  from Cons.prems have ok: "p \<le> m_start m" "m_start m \<le> m_end m"
    "spans_ok (m_end m) n (map span_of ms)"
    by (simp_all add: span_of_def [of m])
  note ih = Cons.IH [OF ok(3)]
  show ?case
  proof (cases "f m")
    case None
    from ok(1,2) have "p \<le> m_end m" by simp
    with ih have "spans_ok p n (map (\<lambda>(a, b, r). (a, b)) (List.map_filter f ms))"
      by (rule spans_ok_from)
    with None show ?thesis by simp
  next
    case (Some e)
    obtain a b r where e: "e = (a, b, r)" by (cases e)
    with Some assms have "(a, b) = span_of m" by blast
    with ih ok Some e show ?thesis
      by (simp add: span_of_def [of m])
  qed
qed

lemma fixer_plan_spans:
  "spans_ok 0 (length text) (map (\<lambda>(a, b, r). (a, b)) (fixer_plan text normalize_all))"
  unfolding fixer_plan_def
  by (rule map_filter_spans [OF _ finditer_spans])
     (auto simp: fixer_edit_def span_of_def Let_def split: if_splits)

lemma checker_plan_spans:
  "spans_ok 0 (length text) (map (\<lambda>(a, b, r). (a, b)) (checker_plan text))"
  unfolding checker_plan_def
  by (rule map_filter_spans [OF _ finditer_spans])
     (auto simp: checker_edit_def span_of_def Let_def split: if_splits sum.splits)

lemma fix_block_edit:
  "(f_new_text (fix_block text normalize_all m st), f_offset (fix_block text normalize_all m st))
     = run_edits (f_new_text st) (f_offset st)
         (case fixer_edit text normalize_all m of None \<Rightarrow> [] | Some e \<Rightarrow> [e])"
  by (simp add: fix_block_def fixer_edit_def Let_def)

lemma fold_fix_block:
  "(f_new_text (fold (fix_block text normalize_all) ms st),
    f_offset (fold (fix_block text normalize_all) ms st))
     = run_edits (f_new_text st) (f_offset st)
         (List.map_filter (fixer_edit text normalize_all) ms)"
proof (induction ms arbitrary: st)
  case Nil
  then show ?case by simp
next
  case (Cons m ms)
  from fix_block_edit [of "text" normalize_all m st] Cons [of "fix_block text normalize_all m st"]
  show ?case
    by (cases "fixer_edit text normalize_all m")
       auto
qed

lemma analyze_block_edit:
  assumes "analyze_block text True m st = Inr st'"
  shows "(c_new_text st', c_offset st')
     = run_edits (c_new_text st) (c_offset st)
         (case checker_edit text m of None \<Rightarrow> [] | Some e \<Rightarrow> [e])"
proof -
  obtain chunk line where g: "get_declaration_after text (m_end m) = (chunk, line)"
    by (cases "get_declaration_after text (m_end m)")
  show ?thesis
    using assms
    by (cases "parse_declaration chunk")
       (auto simp: analyze_block_def checker_edit_def bind_err_def Let_def g)
qed

lemma fold_analyze_block:
  "fold_err (analyze_block text True) ms st = Inr st' \<Longrightarrow>
     (c_new_text st', c_offset st')
       = run_edits (c_new_text st) (c_offset st) (List.map_filter (checker_edit text) ms)"
proof (induction ms arbitrary: st)
  case Nil
  then show ?case by simp
next
  case (Cons m ms)
  from Cons.prems obtain st1 where st1: "analyze_block text True m st = Inr st1"
    "fold_err (analyze_block text True) ms st1 = Inr st'"
    by (cases "analyze_block text True m st") (simp_all add: bind_err_def)
  from analyze_block_edit [OF st1(1)] Cons.IH [OF st1(2)]
  show ?case
    by (cases "checker_edit text m") auto
qed

lemma analyze_block_ok: "\<exists>st'. analyze_block text fix m st = Inr st'"
proof -
  obtain chunk line where g: "get_declaration_after text (m_end m) = (chunk, line)"
    by (cases "get_declaration_after text (m_end m)")
  obtain d where "parse_declaration chunk = Inr d"
    using parse_declaration_ok by blast
  with g show ?thesis
    by (simp add: analyze_block_def bind_err_def Let_def)
qed

lemma fold_err_ok:
  assumes "\<And>x s. \<exists>s'. f x s = Inr s'"
  shows "\<exists>s'. fold_err f xs s = Inr s'"
proof (induction xs arbitrary: s)
  case Nil
  then show ?case by simp
next
  case (Cons x xs)
  from assms obtain s1 where "f x s = Inr s1" by blast
  with Cons [of s1] show ?case by (simp add: bind_err_def)
qed

lemma checker_new_text:
  "\<exists>st. scan_blocks text True = Inr st
         \<and> c_new_text st = apply_plan text (checker_plan text)"
proof -
  obtain st where st: "scan_blocks text True = Inr st"
    unfolding scan_blocks_def using fold_err_ok [of "analyze_block text True", OF analyze_block_ok]
    by blast
  from fold_analyze_block [OF st [unfolded scan_blocks_def]]
  have "(c_new_text st, c_offset st) = run_edits text 0 (checker_plan text)"
    by (simp add: checker_plan_def)
  also have "\<dots> = ([] @ apply_plan_from text 0 (checker_plan text), 0 + shift (checker_plan text))"
    by (rule run_edits_plan [OF checker_plan_spans]) simp_all
  finally have "c_new_text st = apply_plan text (checker_plan text)"
    by (simp add: apply_plan_def)
  with st show ?thesis by blast
qed

lemma fixer_new_text:
  "fst (analyze_and_fix_text text normalize_all) = apply_plan text (fixer_plan text normalize_all)"
proof -
  let ?st = "fold (fix_block text normalize_all) (finditer SCALADOC_RE text)
               \<lparr>f_new_text = text, f_offset = 0, f_changes = []\<rparr>"
  from fold_fix_block [of "text" normalize_all "finditer SCALADOC_RE text"
      "\<lparr>f_new_text = text, f_offset = 0, f_changes = []\<rparr>"]
  have "(f_new_text ?st, f_offset ?st) = run_edits text 0 (fixer_plan text normalize_all)"
    by (simp add: fixer_plan_def)
  also have "\<dots> = ([] @ apply_plan_from text 0 (fixer_plan text normalize_all),
                      0 + shift (fixer_plan text normalize_all))"
    by (rule run_edits_plan [OF fixer_plan_spans]) simp_all
  finally show ?thesis
    by (simp add: analyze_and_fix_text_def apply_plan_def Let_def)
qed

section \<open>Blocks in the conventional style\<close>

text \<open>
  A documented def whose block is in the style of the module docstring of the fixer, at
  the top level and inside an object.
\<close>

definition documented_inc :: string where
  "documented_inc =
     ''/**\<newline> * Adds one.\<newline> * @param x the number\<newline> * @return the successor\<newline> */\<newline>def inc(x: Int): Int = x + 1''"

definition nested_inc :: string where
  "nested_inc =
     ''object A {\<newline>  /**\<newline>   * Adds one.\<newline>   * @param x the number\<newline>   * @return the successor\<newline>   */\<newline>  def inc(x: Int): Int = x + 1\<newline>}''"

text \<open>
  Claim C2. The block of \<^const>\<open>documented_inc\<close> has no issue for the checker and is in the
  conventional style, and the fixer run without \<^verbatim>\<open>normalize_all\<close> rewrites it: it returns
  another text, with a star line after the opener and one before the closer, and reports
  one change. The same holds for the block inside an object. The multi-line block that
  comes back as it is has its stars in the column of the opener, and the fixer run with
  \<^verbatim>\<open>normalize_all\<close> rewrites that one.
\<close>

theorem conventional_block_rewritten:
  "map_sum id (\<lambda>(results, new_text). map r_issues results)
       (analyze_file_checker documented_inc False) = Inr [[]]
   \<and> analyze_and_fix_text documented_inc False
     = (''/**\<newline> *\<newline> * Adds one.\<newline> * @param x the number\<newline> * @return the successor\<newline> * \<newline> */\<newline>def inc(x: Int): Int = x + 1'',
        [(1, ''/**'', ''/**'')])
   \<and> fst (analyze_and_fix_text documented_inc False) \<noteq> documented_inc
   \<and> map_sum id (\<lambda>(results, new_text). map r_issues results)
       (analyze_file_checker nested_inc False) = Inr [[]]
   \<and> analyze_and_fix_text nested_inc False
     = (''object A {\<newline>  /**\<newline>   *\<newline>   * Adds one.\<newline>   * @param x the number\<newline>   * @return the successor\<newline>   *   \<newline>   */\<newline>  def inc(x: Int): Int = x + 1\<newline>}'',
        [(2, ''/**'', ''/**'')])
   \<and> fst (analyze_and_fix_text nested_inc False) \<noteq> nested_inc
   \<and> analyze_and_fix_text ''/**\<newline>* a\<newline>*/'' False = (''/**\<newline>* a\<newline>*/'', [])
   \<and> analyze_and_fix_text ''/**\<newline>* a\<newline>*/'' True
     = (''/**\<newline> *\<newline> * a\<newline> */'', [(1, ''/**'', ''/**'')])"
  by code_simp

section \<open>Scanning a rewritten text again\<close>

subsection \<open>The block pattern, in terms of the text\<close>

text \<open>The first offset at which \<open>x\<close> occurs in \<open>s\<close>.\<close>

fun find_sub :: "string \<Rightarrow> string \<Rightarrow> nat option" where
  "find_sub x [] = (if x = [] then Some 0 else None)"
| "find_sub x (c # cs) =
     (if startswith (c # cs) x then Some 0 else map_option Suc (find_sub x cs))"

text \<open>
  The length of the block that starts a text: \<^verbatim>\<open>/**\<close>, and then the text up to and with
  the first \<^verbatim>\<open>*/\<close> after these three characters.
\<close>

definition block_at :: "string \<Rightarrow> nat option" where
  "block_at s =
     (if startswith s ''/**'' then map_option (\<lambda>j. j + 5) (find_sub ''*/'' (drop 3 s))
      else None)"

text \<open>The lazy repetition of any character: the first offset the continuation accepts.\<close>

fun lazy_first :: "cont \<Rightarrow> char option \<Rightarrow> nat \<Rightarrow> string \<Rightarrow> caps \<Rightarrow> rres" where
  "lazy_first k pv i [] ca = k (pv, i, []) ca"
| "lazy_first k pv i (c # cs) ca =
     (case k (pv, i, c # cs) ca of
        Some r \<Rightarrow> Some r
      | None \<Rightarrow> lazy_first k (Some c) (Suc i) cs ca)"

lemma rmatch_lit:
  "rmatch (lit x) (pv, i, s) ca k =
     (if startswith s x
      then k (if x = [] then pv else Some (last x), i + length x, drop (length x) s) ca
      else None)"
proof (induction x arbitrary: pv i s)
  case Nil
  then show ?case by (simp add: lit_def startswith_def)
next
  case (Cons c x)
  have l: "lit (c # x) = Seq (ch c) (lit x)" by (simp add: lit_def)
  show ?case
  proof (cases s)
    case Nil
    then show ?thesis by (simp add: l ch_def crest_def startswith_def)
  next
    case (Cons d ds)
    show ?thesis
    proof (cases "d = c")
      case True
      with Cons Cons.IH [of "Some c" "Suc i" ds] show ?thesis
        by (simp add: l ch_def crest_def cpos_def startswith_def)
    next
      case False
      with Cons show ?thesis
        by (simp add: l ch_def crest_def cpos_def startswith_def)
    qed
  qed
qed

lemma rstar_lazy_any:
  "length s < n \<Longrightarrow>
     rstar False n (\<lambda>cu ca k. rmatch anych cu ca k) (pv, i, s) ca k = lazy_first k pv i s ca"
proof (induction s arbitrary: n pv i)
  case Nil
  then obtain n' where "n = Suc n'" by (cases n) auto
  then show ?case
    by (simp add: anych_def crest_def split: option.splits)
next
  case (Cons c cs)
  then obtain n' where n': "n = Suc n'" "length cs < n'" by (cases n) auto
  from Cons.IH [OF n'(2), of "Some c" "Suc i"] n'(1) show ?case
    by (simp add: anych_def crest_def cpos_def split: option.splits)
qed

lemma lazy_first_lit:
  assumes "x \<noteq> []"
  shows "lazy_first (\<lambda>cu ca. rmatch (Seq (lit x) Eps) cu ((n, p, cpos cu) # ca)
                              (\<lambda>cu ca. Some (cu, ca))) pv i s ca
         = (case find_sub x s of
              None \<Rightarrow> None
            | Some j \<Rightarrow>
                Some ((Some (last x), i + j + length x, drop (j + length x) s),
                      (n, p, i + j) # ca))"
proof (induction s arbitrary: pv i)
  case Nil
  with assms show ?case
    by (simp add: rmatch_lit startswith_def cpos_def)
next
  case (Cons c cs)
  show ?case
  proof (cases "startswith (c # cs) x")
    case True
    with assms show ?thesis
      by (simp add: rmatch_lit cpos_def)
  next
    case False
    with assms Cons [of "Some c" "Suc i"] show ?thesis
      by (simp add: rmatch_lit cpos_def split: option.splits)
  qed
qed

lemma rmatch_SCALADOC_RE:
  "rmatch SCALADOC_RE (pv, i, s) [] (\<lambda>cu ca. Some (cu, ca)) =
     map_option (\<lambda>n. ((Some CHR ''/'', i + n, drop n s), [(1, i + 3, i + n - 2)])) (block_at s)"
proof (cases "startswith s ''/**''")
  case False
  then show ?thesis
    by (simp add: SCALADOC_RE_def seqs_def rmatch_lit block_at_def)
next
  case True
  have "rmatch SCALADOC_RE (pv, i, s) [] (\<lambda>cu ca. Some (cu, ca))
          = lazy_first (\<lambda>cu ca. rmatch (Seq (lit ''*/'') Eps) cu ((1, i + 3, cpos cu) # ca)
                                  (\<lambda>cu ca. Some (cu, ca)))
              (Some CHR ''*'') (i + 3) (drop 3 s) []"
    using True
    by (simp add: SCALADOC_RE_def seqs_def rmatch_lit [of "''/**''"] crest_def cpos_def
        rstar_lazy_any numeral_3_eq_3 del: rstar.simps)
  also have "\<dots> = (case find_sub ''*/'' (drop 3 s) of
                      None \<Rightarrow> None
                    | Some j \<Rightarrow>
                        Some ((Some (last ''*/''), i + 3 + j + length ''*/'',
                               drop (j + length ''*/'') (drop 3 s)),
                              [(1, i + 3, i + 3 + j)]))"
    by (rule lazy_first_lit) simp
  finally show ?thesis
    using True by (simp add: block_at_def add.commute split: option.splits)
qed

lemma find_sub_bound:
  "find_sub x s = Some j \<Longrightarrow> j + length x \<le> length s \<and> take (length x) (drop j s) = x"
proof (induction s arbitrary: j)
  case Nil
  then show ?case by (simp split: if_splits)
next
  case (Cons c cs)
  show ?case
  proof (cases "startswith (c # cs) x")
    case True
    with Cons.prems have j: "j = 0" by simp
    from True have "take (length x) (c # cs) = x" by (simp add: startswith_def)
    moreover have "length x \<le> length (c # cs)"
      using arg_cong [OF \<open>take (length x) (c # cs) = x\<close>, of length] by simp
    ultimately show ?thesis using j by simp
  next
    case False
    with Cons.prems obtain j' where j': "find_sub x cs = Some j'" "j = Suc j'" by auto
    from Cons.IH [OF j'(1)] j'(2) show ?thesis by simp
  qed
qed

lemma startswith_append:
  "length x \<le> length s \<Longrightarrow> startswith (s @ t) x = startswith s x"
  by (simp add: startswith_def)

lemma find_sub_append:
  "find_sub x s = Some j \<Longrightarrow> find_sub x (s @ t) = Some j"
proof (induction s arbitrary: j)
  case Nil
  then show ?case by (cases t) (simp_all add: startswith_def split: if_splits)
next
  case (Cons c cs)
  from find_sub_bound [OF Cons.prems] have len: "length x \<le> length (c # cs)" by simp
  show ?case
  proof (cases "startswith (c # cs) x")
    case True
    with Cons.prems startswith_append [OF len, of t] show ?thesis by simp
  next
    case False
    with Cons.prems obtain j' where j': "find_sub x cs = Some j'" "j = Suc j'" by auto
    from False startswith_append [OF len, of t] Cons.IH [OF j'(1)] j'(2) show ?thesis by simp
  qed
qed

lemma find_sub_None_drop:
  "find_sub x s = None \<Longrightarrow> find_sub x (drop k s) = None"
proof (induction s arbitrary: k)
  case Nil
  then show ?case by simp
next
  case (Cons c cs)
  then have "find_sub x cs = None" by (simp split: if_splits)
  with Cons show ?case by (cases k) simp_all
qed

lemma find_sub_take:
  "find_sub x s = Some j \<Longrightarrow> find_sub x (take (j + length x) s) = Some j"
proof (induction s arbitrary: j)
  case Nil
  then show ?case by (simp split: if_splits)
next
  case (Cons c cs)
  show ?case
  proof (cases "startswith (c # cs) x")
    case True
    with Cons.prems have j: "j = 0" by simp
    from True have "take (length x) (c # cs) = x" by (simp add: startswith_def)
    then have "startswith (take (length x) (c # cs)) x" by (simp add: startswith_def)
    then show ?thesis
      using j by (cases "take (length x) (c # cs)") (simp_all add: startswith_def)
  next
    case False
    with Cons.prems obtain j' where j': "find_sub x cs = Some j'" "j = Suc j'" by auto
    from find_sub_bound [OF j'(1)] have "length x \<le> length cs" by simp
    have "take (length x) (c # take (j' + length x) cs) = take (length x) (c # cs)"
      by (cases x) simp_all
    with False have "\<not> startswith (c # take (j' + length x) cs) x"
      unfolding startswith_def by simp
    with Cons.IH [OF j'(1)] j'(2) show ?thesis by simp
  qed
qed

lemma block_at_bound:
  assumes "block_at s = Some n"
  shows "5 \<le> n \<and> n \<le> length s \<and> startswith s ''/**''"
proof -
  from assms obtain j where j: "startswith s ''/**''" "find_sub ''*/'' (drop 3 s) = Some j"
    "n = j + 5"
    by (auto simp: block_at_def split: if_splits)
  from find_sub_bound [OF j(2)] have "j + 2 \<le> length s - 3" by simp
  with j(3) have "n \<le> length s" by arith
  with j show ?thesis by simp
qed

lemma block_at_append:
  assumes "block_at r = Some (length r)"
  shows "block_at (r @ t) = Some (length r)"
proof -
  from assms obtain j where j: "startswith r ''/**''" "find_sub ''*/'' (drop 3 r) = Some j"
    "j + 5 = length r"
    by (auto simp: block_at_def split: if_splits)
  from j(3) have "drop 3 (r @ t) = drop 3 r @ t" by simp
  with find_sub_append [OF j(2), of t] have "find_sub ''*/'' (drop 3 (r @ t)) = Some j" by simp
  moreover from j(1,3) have "startswith (r @ t) ''/**''" by (simp add: startswith_append)
  ultimately show ?thesis using j(3) by (simp add: block_at_def)
qed

lemma block_at_take:
  assumes "block_at s = Some n"
  shows "block_at (take n s) = Some n"
proof -
  from assms obtain j where j: "startswith s ''/**''" "find_sub ''*/'' (drop 3 s) = Some j"
    "n = j + 5"
    by (auto simp: block_at_def split: if_splits)
  from find_sub_take [OF j(2)] have "find_sub ''*/'' (take (j + 2) (drop 3 s)) = Some j" by simp
  moreover have "take (j + 2) (drop 3 s) = drop 3 (take n s)"
    using j(3) by (simp add: drop_take)
  moreover from j(1,3) have "startswith (take n s) ''/**''" by (simp add: startswith_def min_def)
  ultimately show ?thesis using j(3) by (simp add: block_at_def)
qed

text \<open>The first block of a text: the length of the text before it, and its length.\<close>

fun first_block :: "string \<Rightarrow> (nat \<times> nat) option" where
  "first_block [] = None"
| "first_block (c # cs) =
     (case block_at (c # cs) of
        Some n \<Rightarrow> Some (0, n)
      | None \<Rightarrow> map_option (\<lambda>(g, n). (Suc g, n)) (first_block cs))"

lemma first_block_iff:
  "first_block s = Some (g, n) \<longleftrightarrow>
     block_at (drop g s) = Some n \<and> (\<forall>q < g. block_at (drop q s) = None)"
proof (induction s arbitrary: g)
  case Nil
  then show ?case by (simp add: block_at_def startswith_def)
next
  case (Cons c cs)
  show ?case
  proof (cases "block_at (c # cs)")
    case (Some n')
    then show ?thesis by (cases g) auto
  next
    case None
    show ?thesis
    proof (cases g)
      case 0
      with None show ?thesis by simp
    next
      case (Suc g')
      have "(\<forall>q < Suc g'. block_at (drop q (c # cs)) = None)
              \<longleftrightarrow> (\<forall>q < g'. block_at (drop q cs) = None)"
        using None by (auto simp: less_Suc_eq_0_disj)
      with None Suc Cons.IH [of g'] show ?thesis by auto
    qed
  qed
qed

lemma search_from_SCALADOC_RE:
  "search_from SCALADOC_RE pv i s =
     map_option (\<lambda>(g, n). (i + g, (Some CHR ''/'', i + g + n, drop (g + n) s),
                            [(1, i + g + 3, i + g + n - 2)])) (first_block s)"
proof (induction s arbitrary: pv i)
  case Nil
  then show ?case by (simp add: rmatch_SCALADOC_RE block_at_def startswith_def)
next
  case (Cons c cs)
  show ?case
  proof (cases "block_at (c # cs)")
    case None
    with Cons [of "Some c" "Suc i"] show ?thesis
      by (cases "first_block cs") (auto simp: rmatch_SCALADOC_RE)
  next
    case (Some n)
    then show ?thesis by (simp add: rmatch_SCALADOC_RE)
  qed
qed

lemma first_block_bound:
  assumes "first_block s = Some (g, n)"
  shows "5 \<le> n \<and> g + n \<le> length s"
proof -
  from assms have "block_at (drop g s) = Some n" by (simp add: first_block_iff)
  from block_at_bound [OF this] show ?thesis by simp arith
qed

text \<open>The blocks of a text in order, and the text with its blocks replaced one by one.\<close>

function blocks_of :: "string \<Rightarrow> string list" where
  "blocks_of s =
     (case first_block s of
        None \<Rightarrow> []
      | Some (g, n) \<Rightarrow> take n (drop g s) # blocks_of (drop (g + n) s))"
  by pat_completeness auto
termination
proof (relation "measure length")
  fix s :: string and x2 :: "nat \<times> nat" and g n :: nat
  assume "first_block s = Some x2" "(g, n) = x2"
  then have "first_block s = Some (g, n)" by simp
  from first_block_bound [OF this] show "(drop (g + n) s, s) \<in> measure length"
    by (simp, arith)
qed simp

declare blocks_of.simps [simp del]

fun rebuild :: "string \<Rightarrow> string list \<Rightarrow> string" where
  "rebuild s [] = s"
| "rebuild s (r # rs) =
     (case first_block s of
        None \<Rightarrow> s
      | Some (g, n) \<Rightarrow> take g s @ r @ rebuild (drop (g + n) s) rs)"

lemma take_append_agree:
  assumes "take 2 y = take 2 z" and "u \<noteq> []"
  shows "take 3 (u @ y) = take 3 (u @ z)"
proof -
  from assms(2) obtain a u' where u: "u = a # u'" by (cases u) auto
  have "take (2 - length u') y = take (2 - length u') (take 2 y)" by (simp add: min_def)
  also have "\<dots> = take (2 - length u') (take 2 z)" by (simp only: assms(1))
  also have "\<dots> = take (2 - length u') z" by (simp add: min_def)
  finally show ?thesis by (simp add: u numeral_3_eq_3 numeral_2_eq_2)
qed

lemma startswith_take2:
  assumes "startswith r ''/**''"
  shows "take 2 (r @ t) = ''/*''"
proof -
  from assms have t: "take 3 r = ''/**''" by (simp add: startswith_def numeral_3_eq_3)
  from arg_cong [OF t, of length] have "3 \<le> length r" by simp
  moreover from arg_cong [OF t, of "take 2"] have "take 2 r = ''/*''" by (simp add: min_def)
  ultimately show ?thesis by simp
qed

lemma first_block_rebuilt:
  assumes fb: "first_block s = Some (g, n)" and r: "block_at r = Some (length r)"
  shows "first_block (take g s @ r @ t) = Some (g, length r)"
proof -
  from fb have at: "block_at (drop g s) = Some n"
    and before: "\<And>q. q < g \<Longrightarrow> block_at (drop q s) = None"
    by (simp_all add: first_block_iff)
  from first_block_bound [OF fb] have g: "g \<le> length s" by simp
  from at obtain j where j: "startswith (drop g s) ''/**''"
    "find_sub ''*/'' (drop 3 (drop g s)) = Some j"
    by (auto simp: block_at_def split: if_splits)
  from block_at_bound [OF r] have rs: "startswith r ''/**''" by simp
  have "block_at (drop g (take g s @ r @ t)) = Some (length r)"
    using g block_at_append [OF r, of t] by simp
  moreover have "block_at (drop q (take g s @ r @ t)) = None" if q: "q < g" for q
  proof -
    have no: "\<not> startswith (drop q s) ''/**''"
    proof
      assume "startswith (drop q s) ''/**''"
      with before [OF q] have "find_sub ''*/'' (drop 3 (drop q s)) = None"
        by (simp add: block_at_def)
      from find_sub_None_drop [OF this, of "g - q"] q
      have "find_sub ''*/'' (drop 3 (drop g s)) = None" by (simp add: add.commute)
      with j(2) show False by simp
    qed
    define u where "u = drop q (take g s)"
    from q g have u: "u \<noteq> []" by (simp add: u_def)
    have "drop g s = drop g s @ []" by simp
    with startswith_take2 [OF j(1), of "[]"] have "take 2 (drop g s) = ''/*''" by simp
    with startswith_take2 [OF rs, of t] have "take 2 (r @ t) = take 2 (drop g s)" by simp
    from take_append_agree [OF this u]
    have "take 3 (u @ r @ t) = take 3 (u @ drop g s)" .
    moreover have "u @ drop g s = drop q s"
    proof -
      have "drop q (take g s @ drop g s)
              = drop q (take g s) @ drop (q - length (take g s)) (drop g s)"
        by (rule drop_append)
      moreover from q g have "q - length (take g s) = 0" by simp
      ultimately show ?thesis by (simp only: append_take_drop_id u_def drop_0)
    qed
    moreover have "drop q (take g s @ r @ t) = u @ r @ t"
      using q g by (simp add: u_def)
    moreover have "length ''/**'' = 3" by simp
    ultimately have "startswith (drop q (take g s @ r @ t)) ''/**'' = startswith (drop q s) ''/**''"
      by (simp only: startswith_def)
    with no show ?thesis by (simp add: block_at_def)
  qed
  ultimately show ?thesis by (simp add: first_block_iff)
qed

lemma blocks_of_closed: "b \<in> set (blocks_of s) \<Longrightarrow> block_at b = Some (length b)"
proof (induction s rule: blocks_of.induct)
  case (1 s)
  show ?case
  proof (cases "first_block s")
    case None
    with 1 show ?thesis by (simp add: blocks_of.simps [of s])
  next
    case (Some gn)
    obtain g n where gn: "gn = (g, n)" by (cases gn)
    from Some gn have fb: "first_block s = Some (g, n)" by simp
    from fb have at: "block_at (drop g s) = Some n" by (simp add: first_block_iff)
    from block_at_bound [OF at] have "length (take n (drop g s)) = n" by simp
    with block_at_take [OF at] have "block_at (take n (drop g s)) = Some (length (take n (drop g s)))"
      by simp
    with 1 fb Some gn show ?thesis by (auto simp: blocks_of.simps [of s])
  qed
qed

lemma blocks_of_rebuild:
  assumes "length reps = length (blocks_of s)"
    and "\<And>r. r \<in> set reps \<Longrightarrow> block_at r = Some (length r)"
  shows "blocks_of (rebuild s reps) = reps"
  using assms
proof (induction reps arbitrary: s)
  case Nil
  then show ?case by simp
next
  case (Cons r rs)
  show ?case
  proof (cases "first_block s")
    case None
    with Cons.prems(1) show ?thesis by (simp add: blocks_of.simps [of s])
  next
    case (Some gn)
    obtain g n where gn: "gn = (g, n)" by (cases gn)
    from Some gn have fb: "first_block s = Some (g, n)" by simp
    define t where "t = rebuild (drop (g + n) s) rs"
    from fb Cons.prems(1) have "length rs = length (blocks_of (drop (g + n) s))"
      by (simp add: blocks_of.simps [of s])
    from Cons.IH [OF this] Cons.prems(2) have ih: "blocks_of t = rs" by (simp add: t_def)
    from Cons.prems(2) have r: "block_at r = Some (length r)" by simp
    from first_block_bound [OF fb] have g: "g \<le> length s" by simp
    have "rebuild s (r # rs) = take g s @ r @ t" by (simp add: fb t_def)
    moreover have "blocks_of (take g s @ r @ t) = r # blocks_of t"
      using first_block_rebuilt [OF fb r, of t] g
      by (simp add: blocks_of.simps [of "take g s @ r @ t"])
    ultimately show ?thesis using ih by simp
  qed
qed

lemma spans_ok_mem:
  "spans_ok p n xs \<Longrightarrow> (a, b) \<in> set xs \<Longrightarrow> p \<le> a \<and> a \<le> b \<and> b \<le> n"
proof (induction xs arbitrary: p)
  case Nil
  then show ?case by simp
next
  case (Cons x xs)
  obtain a' b' where x: "x = (a', b')" by (cases x)
  with Cons.prems(1) have ok: "p \<le> a'" "a' \<le> b'" "spans_ok b' n xs" by simp_all
  from spans_ok_le [OF ok(3)] have "b' \<le> n" .
  show ?case
  proof (cases "(a, b) = x")
    case True
    with x ok \<open>b' \<le> n\<close> show ?thesis by simp
  next
    case False
    with Cons.prems(2) have "(a, b) \<in> set xs" by simp
    from Cons.IH [OF ok(3) this] ok show ?thesis by simp
  qed
qed

lemma finditer_from_SCALADOC_RE:
  "finditer_from SCALADOC_RE pv i s =
     (case first_block s of
        None \<Rightarrow> []
      | Some (g, n) \<Rightarrow>
          (i + g, (Some CHR ''/'', i + g + n, drop (g + n) s), [(1, i + g + 3, i + g + n - 2)])
            # finditer_from SCALADOC_RE (Some CHR ''/'') (i + g + n) (drop (g + n) s))"
proof (cases "first_block s")
  case None
  then show ?thesis
    by (subst finditer_from.simps) (simp add: search_from_SCALADOC_RE)
next
  case (Some gn)
  obtain g n where gn: "gn = (g, n)" by (cases gn)
  from Some gn have fb: "first_block s = Some (g, n)" by simp
  from first_block_bound [OF fb] have "length s - (g + n) < length s" by arith
  with fb show ?thesis
    by (subst finditer_from.simps)
      (simp add: search_from_SCALADOC_RE crest_def m_end_def cpos_def)
qed

lemma finditer_from_texts:
  "map (\<lambda>m. slice s (m_start m - i) (m_end m - i)) (finditer_from SCALADOC_RE pv i s)
     = blocks_of s"
proof (induction s arbitrary: pv i rule: length_induct)
  case (1 s)
  show ?case
  proof (cases "first_block s")
    case None
    then show ?thesis
      by (simp add: finditer_from_SCALADOC_RE [of pv i s] blocks_of.simps [of s]
          del: finditer_from.simps)
  next
    case (Some gn)
    obtain g n where gn: "gn = (g, n)" by (cases gn)
    from Some gn have fb: "first_block s = Some (g, n)" by simp
    from first_block_bound [OF fb] have len: "length (drop (g + n) s) < length s"
      by (simp, arith)
    define rest where
      "rest = finditer_from SCALADOC_RE (Some CHR ''/'') (i + g + n) (drop (g + n) s)"
    from 1 len have ih: "map (\<lambda>m. slice (drop (g + n) s) (m_start m - (i + g + n))
                                 (m_end m - (i + g + n))) rest
                         = blocks_of (drop (g + n) s)"
      unfolding rest_def by blast
    have "slice s (m_start m - i) (m_end m - i)
            = slice (drop (g + n) s) (m_start m - (i + g + n)) (m_end m - (i + g + n))"
      if m: "m \<in> set rest" for m
    proof -
      from m have "span_of m \<in> set (map span_of rest)" by simp
      then have "(m_start m, m_end m) \<in> set (map span_of rest)" by (simp only: span_of_def)
      from spans_ok_mem [OF finditer_from_spans [of "i + g + n" "drop (g + n) s"
            SCALADOC_RE "Some CHR ''/''", folded rest_def] this]
      have "i + g + n \<le> m_start m" by simp
      then have "m_start m - (i + g + n) + (g + n) = m_start m - i"
        and "m_end m - i - (m_start m - i) = m_end m - (i + g + n) - (m_start m - (i + g + n))"
        by arith+
      then show ?thesis by (simp add: slice_def)
    qed
    then have "map (\<lambda>m. slice s (m_start m - i) (m_end m - i)) rest
                 = blocks_of (drop (g + n) s)"
      using ih by (simp cong: map_cong)
    with fb show ?thesis
      by (simp add: finditer_from_SCALADOC_RE [of pv i s] blocks_of.simps [of s]
          rest_def m_start_def m_end_def cpos_def slice_def del: finditer_from.simps)
  qed
qed

lemma slice_split: "i \<le> p \<Longrightarrow> p \<le> a \<Longrightarrow> slice s i a = slice s i p @ slice s p a"
proof -
  assume le: "i \<le> p" "p \<le> a"
  then have "a - i = (p - i) + (a - p)" by arith
  then have "slice s i a = take ((p - i) + (a - p)) (drop i s)" by (simp only: slice_def)
  also have "\<dots> = take (p - i) (drop i s) @ take (a - p) (drop (p - i) (drop i s))"
    by (rule take_add)
  also from le(1) have "drop (p - i) (drop i s) = drop p s" by simp
  finally show ?thesis by (simp only: slice_def)
qed

lemma map_filter_mem: "f x = Some y \<Longrightarrow> x \<in> set xs \<Longrightarrow> y \<in> set (List.map_filter f xs)"
  by (induction xs) (auto simp: List.map_filter_simps split: option.splits)

lemma apply_plan_from_skip:
  assumes "spans_ok p n (map (\<lambda>(a, b, r). (a, b)) es)" and "i \<le> p"
  shows "apply_plan_from s i es = slice s i p @ apply_plan_from s p es"
proof (cases es)
  case Nil
  from assms(2) have "p - i + i = p" by simp
  then have "drop i s = take (p - i) (drop i s) @ drop p s"
    by (metis append_take_drop_id drop_drop)
  with Nil show ?thesis by (simp add: slice_def)
next
  case (Cons e es')
  obtain a b r where e: "e = (a, b, r)" by (cases e)
  with Cons assms(1) have "p \<le> a" by simp
  from slice_split [OF assms(2) this] Cons e show ?thesis by simp
qed

text \<open>What stands for a block after the rewrite: its replacement, or the block itself.\<close>

definition block_after ::
  "string \<Rightarrow> (rmatch_result \<Rightarrow> (nat \<times> nat \<times> string) option) \<Rightarrow> rmatch_result \<Rightarrow> string" where
  "block_after text edit m =
     (case edit m of
        None \<Rightarrow> slice text (m_start m) (m_end m)
      | Some (a, b, r) \<Rightarrow> r)"

lemma apply_plan_from_rebuild:
  assumes f: "\<And>m a b r. f m = Some (a, b, r) \<Longrightarrow> (a, b) = span_of m"
  shows "i \<le> length s \<Longrightarrow>
     apply_plan_from s i (List.map_filter f (finditer_from SCALADOC_RE pv i (drop i s)))
       = rebuild (drop i s) (map (block_after s f) (finditer_from SCALADOC_RE pv i (drop i s)))"
proof (induction "length s - i" arbitrary: i pv rule: less_induct)
  case less
  show ?case
  proof (cases "first_block (drop i s)")
    case None
    then show ?thesis
      by (simp add: finditer_from_SCALADOC_RE [of pv i "drop i s"] del: finditer_from.simps)
  next
    case (Some gn)
    obtain g n where gn: "gn = (g, n)" by (cases gn)
    from Some gn have fb: "first_block (drop i s) = Some (g, n)" by simp
    from first_block_bound [OF fb] have n: "5 \<le> n" and le: "i + g + n \<le> length s"
      by simp_all arith
    define m where "m = (i + g, (Some CHR ''/'', i + g + n, drop (i + g + n) s),
                        [(1 :: nat, i + g + 3, i + g + n - 2)])"
    define rest where
      "rest = finditer_from SCALADOC_RE (Some CHR ''/'') (i + g + n) (drop (i + g + n) s)"
    have dd: "drop (g + n + i) s = drop (i + g + n) s" by (simp add: ac_simps)
    have ms: "finditer_from SCALADOC_RE pv i (drop i s) = m # rest"
      using fb
      by (simp add: finditer_from_SCALADOC_RE [of pv i "drop i s"] dd m_def rest_def
          del: finditer_from.simps)
    have sp: "m_start m = i + g" "m_end m = i + g + n"
      by (simp_all add: m_def m_start_def m_end_def cpos_def)
    from n le have "length s - (i + g + n) < length s - i" by arith
    from less.hyps [OF this le, of "Some CHR ''/''"]
    have ih: "apply_plan_from s (i + g + n) (List.map_filter f rest)
                = rebuild (drop (i + g + n) s) (map (block_after s f) rest)"
      by (simp add: rest_def)
    have rb: "rebuild (drop i s) (map (block_after s f) (m # rest))
                = take g (drop i s) @ block_after s f m
                    @ rebuild (drop (i + g + n) s) (map (block_after s f) rest)"
      using fb by (simp add: dd)
    show ?thesis
    proof (cases "f m")
      case None
      have "spans_ok (i + g + n) (i + g + n + length (drop (i + g + n) s)) (map span_of rest)"
        unfolding rest_def by (rule finditer_from_spans)
      from map_filter_spans [of f, OF f this]
      have "spans_ok (i + g + n) (i + g + n + length (drop (i + g + n) s))
              (map (\<lambda>(a, b, r). (a, b)) (List.map_filter f rest))" .
      from apply_plan_from_skip [OF this, of i s]
      have sk: "apply_plan_from s i (List.map_filter f rest)
              = slice s i (i + g + n) @ apply_plan_from s (i + g + n) (List.map_filter f rest)"
        by simp
      have sl: "slice s i (i + g + n) = take g (drop i s) @ slice s (i + g) (i + g + n)"
        using slice_split [of i "i + g" "i + g + n" s] by (simp add: slice_def)
      from None have ba: "block_after s f m = slice s (i + g) (i + g + n)"
        by (simp add: block_after_def sp)
      from None have mf: "List.map_filter f (m # rest) = List.map_filter f rest"
        by (simp add: List.map_filter_simps)
      have "apply_plan_from s i (List.map_filter f (m # rest))
              = take g (drop i s) @ block_after s f m
                  @ rebuild (drop (i + g + n) s) (map (block_after s f) rest)"
        by (simp only: mf sk sl ba ih append_assoc)
      then show ?thesis by (simp only: ms rb)
    next
      case (Some e)
      obtain a b r where e: "e = (a, b, r)" by (cases e)
      from f [of m a b r] Some e sp have ab: "a = i + g" "b = i + g + n"
        by (simp_all add: span_of_def)
      from Some e have ba: "block_after s f m = r" by (simp add: block_after_def)
      from Some e have mf: "List.map_filter f (m # rest) = (a, b, r) # List.map_filter f rest"
        by (simp add: List.map_filter_simps)
      have sl: "slice s i a = take g (drop i s)" by (simp add: ab slice_def)
      have "apply_plan_from s i (List.map_filter f (m # rest))
              = take g (drop i s) @ block_after s f m
                  @ rebuild (drop (i + g + n) s) (map (block_after s f) rest)"
        by (simp only: mf apply_plan_from.simps sl ba ab(2) ih)
      then show ?thesis by (simp only: ms rb)
    qed
  qed
qed

lemma blocks_after_plan:
  assumes f: "\<And>m a b r. f m = Some (a, b, r) \<Longrightarrow> (a, b) = span_of m"
    and closed: "list_all (\<lambda>(a, b, r). block_at r = Some (length r))
                   (List.map_filter f (finditer SCALADOC_RE s))"
  shows "map (\<lambda>(a, b, c). slice (apply_plan s (List.map_filter f (finditer SCALADOC_RE s))) a b)
           (extract_scaladoc_blocks (apply_plan s (List.map_filter f (finditer SCALADOC_RE s))))
         = map (block_after s f) (finditer SCALADOC_RE s)"
proof -
  define ms where "ms = finditer SCALADOC_RE s"
  define t where "t = apply_plan s (List.map_filter f ms)"
  have texts: "map (\<lambda>m. slice x (m_start m) (m_end m)) (finditer SCALADOC_RE x) = blocks_of x"
    for x
    using finditer_from_texts [of x 0 None] by (simp add: finditer_def)
  have t: "t = rebuild s (map (block_after s f) ms)"
    using apply_plan_from_rebuild [of f 0 s None, OF f]
    by (simp add: t_def ms_def apply_plan_def finditer_def)
  have len: "length (map (block_after s f) ms) = length (blocks_of s)"
    using arg_cong [OF texts [of s], of length] by (simp add: ms_def)
  have cl: "block_at r = Some (length r)" if r: "r \<in> set (map (block_after s f) ms)" for r
  proof -
    from r obtain m where m: "m \<in> set ms" "r = block_after s f m" by auto
    show ?thesis
    proof (cases "f m")
      case None
      with m have "r = slice s (m_start m) (m_end m)" by (simp add: block_after_def)
      with m(1) have "r \<in> set (map (\<lambda>m. slice s (m_start m) (m_end m)) ms)" by auto
      then have "r \<in> set (blocks_of s)" by (simp only: texts ms_def)
      then show ?thesis by (rule blocks_of_closed)
    next
      case (Some e)
      obtain a b r' where e: "e = (a, b, r')" by (cases e)
      with Some m have "r = r'" by (simp add: block_after_def)
      moreover from Some m(1) e have "(a, b, r') \<in> set (List.map_filter f ms)"
        by (simp add: map_filter_mem)
      ultimately show ?thesis using closed by (auto simp: list_all_iff ms_def)
    qed
  qed
  have "map (\<lambda>(a, b, c). slice t a b) (extract_scaladoc_blocks t)
          = map (\<lambda>m. slice t (m_start m) (m_end m)) (finditer SCALADOC_RE t)"
    by (simp add: extract_scaladoc_blocks_def comp_def)
  also have "\<dots> = blocks_of t" by (rule texts)
  also have "\<dots> = map (block_after s f) ms"
    unfolding t using len cl by (rule blocks_of_rebuild)
  finally show ?thesis by (simp add: t_def ms_def)
qed

section \<open>Replacements in one running buffer\<close>

text \<open>
  The blocks the extractor finds in a text, each as the text of its span; and a text
  that is one block: the extractor finds in it one block, and this block is all of it.
\<close>

definition block_texts :: "string \<Rightarrow> string list" where
  "block_texts text = map (\<lambda>(start, stop, inner). slice text start stop) (extract_scaladoc_blocks text)"

definition one_block :: "string \<Rightarrow> bool" where
  "one_block r = (map (\<lambda>(start, stop, inner). (start, stop)) (extract_scaladoc_blocks r) = [(0, length r)])"

lemma one_block_closed:
  assumes "one_block r"
  shows "block_at r = Some (length r)"
proof (cases "first_block r")
  case None
  with assms show ?thesis
    by (simp add: one_block_def extract_scaladoc_blocks_def finditer_def
        finditer_from_SCALADOC_RE [of None 0 r] del: finditer_from.simps)
next
  case (Some gn)
  obtain g n where gn: "gn = (g, n)" by (cases gn)
  from Some gn have fb: "first_block r = Some (g, n)" by simp
  with assms have "g = 0" "n = length r"
    by (simp_all add: one_block_def extract_scaladoc_blocks_def finditer_def
        finditer_from_SCALADOC_RE [of None 0 r] m_start_def m_end_def cpos_def
        del: finditer_from.simps)
  with fb show ?thesis by (simp add: first_block_iff)
qed

lemma one_block_plan:
  "list_all (\<lambda>(a, b, r). one_block r) es
     \<Longrightarrow> list_all (\<lambda>(a, b, r). block_at r = Some (length r)) es"
  by (auto simp: list_all_iff dest: one_block_closed)

lemma checker_edit_span: "checker_edit text m = Some (a, b, r) \<Longrightarrow> (a, b) = span_of m"
  by (auto simp: checker_edit_def span_of_def Let_def split: if_splits sum.splits)

lemma fixer_edit_span:
  "fixer_edit text normalize_all m = Some (a, b, r) \<Longrightarrow> (a, b) = span_of m"
  by (auto simp: fixer_edit_def span_of_def Let_def split: if_splits)

text \<open>
  Claim C5, amended. With \<^verbatim>\<open>fix\<close> set the checker leaves, and for either setting of
  \<^verbatim>\<open>normalize_all\<close> the indentation fixer returns, the original text with the plan of
  the tool applied: the text outside the replaced spans is kept as it is, and each
  replacement \<open>r\<close> of a span starting at \<open>a\<close> stands in the result at \<open>a\<close> plus the
  cumulative offset of the replacements before it. The spans of a plan are in source
  order and do not overlap. Where every replacement of the plan is one block for the
  extractor, the blocks the extractor finds in the result are the blocks of the original
  text in their order, each replaced block as its replacement.
\<close>

theorem splicing_follows_plan:
  "map_sum id snd (analyze_file_checker text True) = Inr (apply_plan text (checker_plan text))
   \<and> fst (analyze_and_fix_text text normalize_all)
       = apply_plan text (fixer_plan text normalize_all)
   \<and> ((es = checker_plan text \<or> es = fixer_plan text normalize_all)
        \<and> es = es1 @ (a, b, r) # es2 \<longrightarrow>
        spans_ok 0 (length text) (map (\<lambda>(a, b, r). (a, b)) es)
        \<and> (\<exists>pre. apply_plan text es = pre @ r @ apply_plan_from text b es2
                  \<and> int (length pre) = int a + shift es1))
   \<and> (list_all (\<lambda>(a, b, r). one_block r) (checker_plan text) \<longrightarrow>
        block_texts (apply_plan text (checker_plan text))
          = map (block_after text (checker_edit text)) (finditer SCALADOC_RE text))
   \<and> (list_all (\<lambda>(a, b, r). one_block r) (fixer_plan text normalize_all) \<longrightarrow>
        block_texts (apply_plan text (fixer_plan text normalize_all))
          = map (block_after text (fixer_edit text normalize_all)) (finditer SCALADOC_RE text))"
proof (intro conjI impI)
  from checker_new_text [of "text"] obtain st where
    st: "scan_blocks text True = Inr st" "c_new_text st = apply_plan text (checker_plan text)"
    by blast
  then show "map_sum id snd (analyze_file_checker text True)
               = Inr (apply_plan text (checker_plan text))"
    by (simp add: analyze_file_checker_def bind_err_def)
next
  show "fst (analyze_and_fix_text text normalize_all)
          = apply_plan text (fixer_plan text normalize_all)"
    by (rule fixer_new_text)
next
  assume a: "(es = checker_plan text \<or> es = fixer_plan text normalize_all)
               \<and> es = es1 @ (a, b, r) # es2"
  then show ok: "spans_ok 0 (length text) (map (\<lambda>(a, b, r). (a, b)) es)"
    using checker_plan_spans [of "text"] fixer_plan_spans [of "text" normalize_all] by blast
  from a ok have "spans_ok 0 (length text) (map (\<lambda>(a, b, r). (a, b)) (es1 @ (a, b, r) # es2))"
    by simp
  from apply_plan_from_position [OF this] a
  show "\<exists>pre. apply_plan text es = pre @ r @ apply_plan_from text b es2
              \<and> int (length pre) = int a + shift es1"
    by (simp add: apply_plan_def)
next
  assume "list_all (\<lambda>(a, b, r). one_block r) (checker_plan text)"
  then have "list_all (\<lambda>(a, b, r). block_at r = Some (length r))
               (List.map_filter (checker_edit text) (finditer SCALADOC_RE text))"
    unfolding checker_plan_def by (rule one_block_plan)
  from blocks_after_plan [of "checker_edit text" "text", OF checker_edit_span this]
  show "block_texts (apply_plan text (checker_plan text))
          = map (block_after text (checker_edit text)) (finditer SCALADOC_RE text)"
    by (simp only: block_texts_def checker_plan_def)
next
  assume "list_all (\<lambda>(a, b, r). one_block r) (fixer_plan text normalize_all)"
  then have "list_all (\<lambda>(a, b, r). block_at r = Some (length r))
               (List.map_filter (fixer_edit text normalize_all) (finditer SCALADOC_RE text))"
    unfolding fixer_plan_def by (rule one_block_plan)
  from blocks_after_plan [of "fixer_edit text normalize_all" "text", OF fixer_edit_span this]
  show "block_texts (apply_plan text (fixer_plan text normalize_all))
          = map (block_after text (fixer_edit text normalize_all)) (finditer SCALADOC_RE text)"
    by (simp only: block_texts_def fixer_plan_def)
qed

text \<open>
  Two blocks on one line, both rewritten by the fixer: the second replacement stands at
  offset 9 + 4 = 13 of the result, and the extractor finds the two replacements in the
  result. One block before a def with an undocumented parameter, rewritten by the
  checker: the extractor finds the replacement in the result.
\<close>

definition two_blocks :: string where
  "two_blocks = ''/** a\<newline>*/ /** b\<newline>*/''"

definition undocumented_param :: string where
  "undocumented_param = ''/** D */\<newline>def f(x: Int) = 1''"

definition undocumented_param_block :: string where
  "undocumented_param_block =
     ''/**\<newline> * D\<newline> * @param x TODO FILL IN PARAM\<newline> * @return TODO FILL IN RETURN\<newline> */''"

theorem splicing_follows_plan_witness:
  "fixer_plan two_blocks False
     = [(0, 8, ''/**\<newline> * a\<newline> */''), (9, 17, ''/**\<newline> * b\<newline> */'')]
   \<and> shift [(0, 8, ''/**\<newline> * a\<newline> */'')] = 4
   \<and> fst (analyze_and_fix_text two_blocks False)
       = ''/**\<newline> * a\<newline> */ /**\<newline> * b\<newline> */''
   \<and> (\<exists>pre. apply_plan two_blocks (fixer_plan two_blocks False)
                = pre @ ''/**\<newline> * b\<newline> */'' @ apply_plan_from two_blocks 17 []
              \<and> int (length pre) = int 9 + shift [(0, 8, ''/**\<newline> * a\<newline> */'')])
   \<and> list_all (\<lambda>(a, b, r). one_block r) (fixer_plan two_blocks False)
   \<and> block_texts (apply_plan two_blocks (fixer_plan two_blocks False))
       = [''/**\<newline> * a\<newline> */'', ''/**\<newline> * b\<newline> */'']
   \<and> checker_plan undocumented_param = [(0, 8, undocumented_param_block)]
   \<and> list_all (\<lambda>(a, b, r). one_block r) (checker_plan undocumented_param)
   \<and> block_texts (apply_plan undocumented_param (checker_plan undocumented_param))
       = [undocumented_param_block]"
proof -
  have p: "fixer_plan two_blocks False
     = [(0, 8, ''/**\<newline> * a\<newline> */'')] @ (9, 17, ''/**\<newline> * b\<newline> */'') # []"
    by code_simp
  have s: "shift [(0, 8, ''/**\<newline> * a\<newline> */'')] = 4"
    by (simp add: shift_def)
  have r: "fst (analyze_and_fix_text two_blocks False)
       = ''/**\<newline> * a\<newline> */ /**\<newline> * b\<newline> */''"
    by code_simp
  have f1: "list_all (\<lambda>(a, b, r). one_block r) (fixer_plan two_blocks False)"
    by code_simp
  have f2: "map (block_after two_blocks (fixer_edit two_blocks False))
              (finditer SCALADOC_RE two_blocks)
            = [''/**\<newline> * a\<newline> */'', ''/**\<newline> * b\<newline> */'']"
    by code_simp
  have c0: "checker_plan undocumented_param = [(0, 8, undocumented_param_block)]"
    by code_simp
  have c1: "list_all (\<lambda>(a, b, r). one_block r) (checker_plan undocumented_param)"
    by code_simp
  have c2: "map (block_after undocumented_param (checker_edit undocumented_param))
              (finditer SCALADOC_RE undocumented_param)
            = [undocumented_param_block]"
    by code_simp
  note fixer = splicing_follows_plan [of two_blocks False "fixer_plan two_blocks False"
      "[(0, 8, ''/**\<newline> * a\<newline> */'')]" 9 17 "''/**\<newline> * b\<newline> */''" "[]"]
  note checker = splicing_follows_plan [of undocumented_param False "[]" "[]" 0 0 "[]" "[]"]
  from fixer p
  have "\<exists>pre. apply_plan two_blocks (fixer_plan two_blocks False)
                = pre @ ''/**\<newline> * b\<newline> */'' @ apply_plan_from two_blocks 17 []
              \<and> int (length pre) = int 9 + shift [(0, 8, ''/**\<newline> * a\<newline> */'')]"
    by blast
  moreover from fixer f1 f2
  have "block_texts (apply_plan two_blocks (fixer_plan two_blocks False))
          = [''/**\<newline> * a\<newline> */'', ''/**\<newline> * b\<newline> */'']"
    by simp
  moreover from checker c1 c2
  have "block_texts (apply_plan undocumented_param (checker_plan undocumented_param))
          = [undocumented_param_block]"
    by simp
  ultimately show ?thesis using p s r f1 c0 c1 by simp
qed

text \<open>
  Claim C5 as stated fails where an inserted name holds a comment terminator. For
  \<^verbatim>\<open>/** d */\<close> before \<^verbatim>\<open>def f[A /* c */](x: A): Int = 1\<close> the checker replaces the one
  block; the replacement is not one block for the extractor, and scanning the result
  again finds one block that ends inside the inserted \<^verbatim>\<open>@tparam\<close> line: it is not the
  inserted block.
\<close>

definition commented_tparam :: string where
  "commented_tparam = ''/** d */\<newline>def f[A /* c */](x: A): Int = 1''"

definition commented_tparam_block :: string where
  "commented_tparam_block =
     ''/**\<newline> * d\<newline> * @tparam A /* c */ TODO FILL IN TPARAM\<newline> * @param x TODO FILL IN PARAM\<newline> * @return TODO FILL IN RETURN\<newline> */''"

theorem rescan_counterexample:
  "checker_plan commented_tparam = [(0, 8, commented_tparam_block)]
   \<and> map_sum id snd (analyze_file_checker commented_tparam True)
       = Inr (commented_tparam_block @ ''\<newline>def f[A /* c */](x: A): Int = 1'')
   \<and> map (\<lambda>(a, b, c). slice (commented_tparam_block @ ''\<newline>def f[A /* c */](x: A): Int = 1'') a b)
         (extract_scaladoc_blocks
            (commented_tparam_block @ ''\<newline>def f[A /* c */](x: A): Int = 1''))
       = [''/**\<newline> * d\<newline> * @tparam A /* c */'']
   \<and> [''/**\<newline> * d\<newline> * @tparam A /* c */''] \<noteq> [commented_tparam_block]
   \<and> \<not> one_block commented_tparam_block"
  by code_simp

end
